theory Spec2Isabelle
  imports Complex_Main "HOL-Library.Word"
begin

section \<open>Machine integers shared by both sketches\<close>

text \<open>
  \<open>int\<close> is 32 bits wide on the ESP32. Values of that type are kept as HOL integers and
  every \<open>++\<close> and \<open>+=\<close> of the source is followed by the two's-complement wrap-around,
  written out.
\<close>

definition int32_wrap :: "int \<Rightarrow> int" where
  "int32_wrap x = (x + 2147483648) mod 4294967296 - 2147483648"

text \<open>\<open>TickType_t\<close> is FreeRTOS's unsigned 32-bit tick counter.\<close>

type_synonym TickType_t = "32 word"

datatype level = LOW | HIGH

section \<open>Floating point\<close>

text \<open>
  The \<open>float\<close> of the sketches is IEEE 754 binary32; the literal \<open>5.0\<close>, and with it the
  quotient \<open>sum / 5.0\<close>, is binary64. A value of either type is kept as the real number it
  denotes, and every operation that rounds is followed by its rounding, to nearest with ties
  to even. Comparisons, \<open>abs\<close> and the conversion of a small integer are exact.

  \<open>float_round p emin emax\<close> rounds to the format with \<open>p\<close> significand bits and the
  exponents \<open>emin\<close> to \<open>emax\<close>; below \<open>2 ^ emin\<close> it rounds on the grid of the subnormals.
  Infinities and NaN are left out: the sums of the sketches are 32-bit integers, far from
  \<open>2 ^ 128\<close>.

  The exponent of a magnitude is found by stepping from 1 upwards or downwards.
\<close>

function float_exp_up :: "int \<Rightarrow> int \<Rightarrow> real \<Rightarrow> int" where
  "float_exp_up emax e x =
     (if e < emax \<and> 2 powi (e + 1) \<le> x then float_exp_up emax (e + 1) x else e)"
  by pat_completeness auto
termination
  by (relation "measure (\<lambda>(emax, e, x). nat (emax - e))") auto

declare float_exp_up.simps [simp del]

function float_exp_down :: "int \<Rightarrow> int \<Rightarrow> real \<Rightarrow> int" where
  "float_exp_down emin e x =
     (if emin < e \<and> x < 2 powi e then float_exp_down emin (e - 1) x else e)"
  by pat_completeness auto
termination
  by (relation "measure (\<lambda>(emin, e, x). nat (e - emin))") auto

declare float_exp_down.simps [simp del]

definition float_exponent :: "int \<Rightarrow> int \<Rightarrow> real \<Rightarrow> int" where
  "float_exponent emin emax x =
     (if 1 \<le> x then float_exp_up emax 0 x else float_exp_down emin (- 1) x)"

definition round_half_even :: "real \<Rightarrow> int" where
  "round_half_even y =
     (let f = \<lfloor>y\<rfloor>
      in if y - of_int f < 1 / 2 then f
         else if 1 / 2 < y - of_int f then f + 1
         else if even f then f else f + 1)"

text \<open>The unit in the last place for a magnitude, and the rounding on that grid.\<close>

definition float_ulp :: "nat \<Rightarrow> int \<Rightarrow> int \<Rightarrow> real \<Rightarrow> real" where
  "float_ulp p emin emax m = 2 powi (float_exponent emin emax m - int p + 1)"

definition float_round :: "nat \<Rightarrow> int \<Rightarrow> int \<Rightarrow> real \<Rightarrow> real" where
  "float_round p emin emax x =
     (if x = 0 then 0
      else (let u = float_ulp p emin emax \<bar>x\<bar>
            in sgn x * (of_int (round_half_even (\<bar>x\<bar> / u)) * u)))"

definition float32_round :: "real \<Rightarrow> real" where
  "float32_round = float_round 24 (- 126) 127"

definition float64_round :: "real \<Rightarrow> real" where
  "float64_round = float_round 53 (- 1022) 1023"

text \<open>
  \<^verbatim>\<open>sum / 5.0\<close> stored in a \<open>float\<close>: the division is done in binary64 and its result is
  converted. \<^verbatim>\<open>a - b\<close> on two \<open>float\<close>s is rounded once.
\<close>

definition float_of_sum_div_5 :: "int \<Rightarrow> real" where
  "float_of_sum_div_5 sm = float32_round (float64_round (real_of_int sm / 5))"

definition float32_sub :: "real \<Rightarrow> real \<Rightarrow> real" where
  "float32_sub a b = float32_round (a - b)"

section \<open>Lab4 Part I: three periodic tasks and the monitor\<close>

text \<open>
  \<open>portTICK_PERIOD_MS\<close> is a macro of the FreeRTOS port, absent from the sketch: every
  constant that divides by it takes it as the parameter \<open>p\<close>.
\<close>

definition ledTaskExecutionTime :: "TickType_t \<Rightarrow> TickType_t" where
  "ledTaskExecutionTime p = 500 div p"

definition counterTaskExecutionTime :: "TickType_t \<Rightarrow> TickType_t" where
  "counterTaskExecutionTime p = 2000 div p"

definition alphabetTaskExecutionTime :: "TickType_t \<Rightarrow> TickType_t" where
  "alphabetTaskExecutionTime p = 13000 div p"

definition timeSlice :: "TickType_t \<Rightarrow> TickType_t" where
  "timeSlice p = 1000 div p"

text \<open>
  The globals of the sketch, the \<open>state\<close> local of \<open>ledTask\<close> (it lives across rounds),
  the level of \<open>ledPin\<close>, and what has been sent to the LCD and to the serial port.
\<close>

record part1_state =
  remainingLedTime :: TickType_t
  remainingCounterTime :: TickType_t
  remainingAlphabetTime :: TickType_t
  currentCount :: int
  currentChar :: "8 word"
  ledTask_state :: bool
  ledPin :: level
  lcd_counts :: "int list"
  serial_chars :: "8 word list"

definition part1_init :: "TickType_t \<Rightarrow> part1_state" where
  "part1_init p =
     \<lparr> remainingLedTime = ledTaskExecutionTime p,
       remainingCounterTime = counterTaskExecutionTime p,
       remainingAlphabetTime = alphabetTaskExecutionTime p,
       currentCount = 1,
       currentChar = 0x41,
       ledTask_state = False,
       ledPin = LOW,
       lcd_counts = [],
       serial_chars = [] \<rparr>"

text \<open>
  Each of the three tasks ends its round with the same two statements on its own budget:
  \<^verbatim>\<open>if (r > 0) { r = (r > timeSlice) ? (r - timeSlice) : 0; }\<close> and then
  \<^verbatim>\<open>if (r == 0) { r = period; }\<close>. They are written once here, in that order.
\<close>

definition budget_decrement :: "TickType_t \<Rightarrow> TickType_t \<Rightarrow> TickType_t" where
  "budget_decrement ts r = (if r > 0 then (if r > ts then r - ts else 0) else r)"

definition budget_reset :: "TickType_t \<Rightarrow> TickType_t \<Rightarrow> TickType_t" where
  "budget_reset period r = (if r = 0 then period else r)"

definition ledTask_round :: "TickType_t \<Rightarrow> part1_state \<Rightarrow> part1_state" where
  "ledTask_round p s =
     (let st = \<not> ledTask_state s;
          r1 = budget_decrement (timeSlice p) (remainingLedTime s);
          r2 = budget_reset (ledTaskExecutionTime p) r1
      in s\<lparr> ledTask_state := st,
            ledPin := (if st then HIGH else LOW),
            remainingLedTime := r2 \<rparr>)"

definition counterTask_round :: "TickType_t \<Rightarrow> part1_state \<Rightarrow> part1_state" where
  "counterTask_round p s =
     (let shown = currentCount s;
          c1 = int32_wrap (currentCount s + 1);
          c2 = (if c1 > 20 then 1 else c1);
          r1 = budget_decrement (timeSlice p) (remainingCounterTime s);
          r2 = budget_reset (counterTaskExecutionTime p) r1
      in s\<lparr> lcd_counts := lcd_counts s @ [shown],
            currentCount := c2,
            remainingCounterTime := r2 \<rparr>)"

definition alphabetTask_round :: "TickType_t \<Rightarrow> part1_state \<Rightarrow> part1_state" where
  "alphabetTask_round p s =
     (let shown = currentChar s;
          c1 = currentChar s + 1;
          c2 = (if c1 > 0x5A then 0x41 else c1);
          r1 = budget_decrement (timeSlice p) (remainingAlphabetTime s);
          r2 = budget_reset (alphabetTaskExecutionTime p) r1
      in s\<lparr> serial_chars := serial_chars s @ [shown],
            currentChar := c2,
            remainingAlphabetTime := r2 \<rparr>)"

text \<open>
  In \<open>alphabetTask\<close> the \<open>char\<close> is a byte compared as unsigned; from \<open>'A'\<close> it never
  leaves \<open>'A'..'Z'\<close>, where the signedness of \<open>char\<close> makes no difference.

  One round of \<open>scheduleTasks\<close>: the local \<open>minRemaining\<close> is computed from the three
  globals and dropped when the round ends. The round returns it beside the state.
\<close>

definition scheduleTasks_round :: "part1_state \<Rightarrow> TickType_t \<times> part1_state" where
  "scheduleTasks_round s =
     (let minRemaining = remainingLedTime s;
          minRemaining = (if remainingCounterTime s < minRemaining
                          then remainingCounterTime s else minRemaining);
          minRemaining = (if remainingAlphabetTime s < minRemaining
                          then remainingAlphabetTime s else minRemaining)
      in (minRemaining, s))"

text \<open>The four tasks run in whatever order the scheduler picks; a schedule is a list.\<close>

datatype part1_task = LedTask | CounterTask | AlphabetTask | SchedulerTask

fun part1_round :: "TickType_t \<Rightarrow> part1_state \<Rightarrow> part1_task \<Rightarrow> part1_state" where
  "part1_round p s LedTask = ledTask_round p s"
| "part1_round p s CounterTask = counterTask_round p s"
| "part1_round p s AlphabetTask = alphabetTask_round p s"
| "part1_round p s SchedulerTask = snd (scheduleTasks_round s)"

definition part1_run :: "TickType_t \<Rightarrow> part1_task list \<Rightarrow> part1_state" where
  "part1_run p sched = foldl (part1_round p) (part1_init p) sched"

definition budgets_in_range :: "TickType_t \<Rightarrow> part1_state \<Rightarrow> bool" where
  "budgets_in_range p s =
     (remainingLedTime s \<le> ledTaskExecutionTime p \<and>
      remainingCounterTime s \<le> counterTaskExecutionTime p \<and>
      remainingAlphabetTime s \<le> alphabetTaskExecutionTime p)"

definition count_in_range :: "part1_state \<Rightarrow> bool" where
  "count_in_range s = (1 \<le> currentCount s \<and> currentCount s \<le> 20)"

section \<open>Lab4 Part II: the sensor pipeline\<close>

text \<open>
  The repository holds two revisions of this sketch. The file
  \<^verbatim>\<open>Lab4_PartII/Lab4_PartII.ino\<close> is the first one (``Update 1''); its definitions carry the
  suffix \<open>_u1\<close>. The later revision (``Update 2'') carries \<open>_u2\<close>.

  What a task does to the outside world is a list of events, in program order.
\<close>

datatype event =
    SemTake
  | SemGive
  | DigitalWrite nat level
  | TaskDelay nat
  | LcdClear
  | LcdSetCursor nat nat
  | LcdPrintStr string
  | LcdPrintInt int
  | SerialPrint string
  | SerialPrintln int
  | TaskDelete

text \<open>A cast \<open>(int)x\<close> of a float drops the fraction, towards zero.\<close>

definition float_to_int :: "real \<Rightarrow> int" where
  "float_to_int x = (if 0 \<le> x then \<lfloor>x\<rfloor> else \<lceil>x\<rceil>)"

text \<open>
  The summing loop, the same in both revisions:
  \<^verbatim>\<open>for (int i = 0; i < 5; i++) sum += lightHistory[i];\<close>
\<close>

function sum_loop :: "int list \<Rightarrow> nat \<Rightarrow> int \<Rightarrow> int" where
  "sum_loop h i sm = (if i < 5 then sum_loop h (i + 1) (int32_wrap (sm + h ! i)) else sm)"
  by pat_completeness auto
termination
  by (relation "measure (\<lambda>(h, i, sm). 5 - i)") auto

declare sum_loop.simps [simp del]

subsection \<open>Update 1: globals, producer, display\<close>

record shared_u1 =
  lightLevel :: int
  lightHistory :: "int list"
  sma :: real
  index :: nat
  dataChanged :: bool

definition init_u1 :: shared_u1 where
  "init_u1 = \<lparr> lightLevel = 0, lightHistory = [0, 0, 0, 0, 0], sma = 0, index = 0,
               dataChanged = False \<rparr>"

text \<open>
  One round of \<open>vTaskLight\<close>, from the successful \<open>xSemaphoreTake\<close> to \<open>xSemaphoreGive\<close>,
  with \<open>raw\<close> the sample read just before. The local \<open>newSMA\<close> is returned beside the
  globals. \<open>index\<close> starts at 0 and is only ever assigned a remainder modulo 5.
\<close>

definition vTaskLight_u1_round :: "int \<Rightarrow> shared_u1 \<Rightarrow> real \<times> shared_u1" where
  "vTaskLight_u1_round raw s =
     (let h = (lightHistory s)[index s := raw];
          s1 = s\<lparr> lightLevel := raw, lightHistory := h, index := (index s + 1) mod 5 \<rparr>;
          sm = sum_loop h 0 0;
          newSMA = float_of_sum_div_5 sm
      in if \<bar>float32_sub newSMA (sma s1)\<bar> > 5
         then (newSMA, s1\<lparr> sma := newSMA, dataChanged := True \<rparr>)
         else (newSMA, s1))"

definition vTaskLCD_u1_round :: "shared_u1 \<Rightarrow> event list \<times> shared_u1" where
  "vTaskLCD_u1_round s =
     (if dataChanged s
      then ([SemTake, LcdClear, LcdSetCursor 0 0, LcdPrintStr ''Light: '',
             LcdPrintInt (lightLevel s), LcdSetCursor 0 1, LcdPrintStr ''SMA: '',
             LcdPrintInt (float_to_int (sma s)), SemGive],
            s\<lparr> dataChanged := False \<rparr>)
      else ([SemTake, SemGive], s))"

text \<open>The producer's rounds on a list of samples, oldest first.\<close>

definition light_run_u1 :: "shared_u1 \<Rightarrow> int list \<Rightarrow> real \<times> shared_u1" where
  "light_run_u1 s0 samples =
     foldl (\<lambda>(a, s) raw. vTaskLight_u1_round raw s) (0, s0) samples"

text \<open>
  The rounds of Update 1 in whatever order the scheduler lets the tasks take the semaphore.
  A round of the alarm task writes no global (\<open>vTaskAnomaly\<close> only reads \<open>sma\<close>).
\<close>

datatype round_u1 = ProducerRound int | DisplayRound | AlarmRound

fun do_round_u1 :: "shared_u1 \<Rightarrow> round_u1 \<Rightarrow> shared_u1" where
  "do_round_u1 s (ProducerRound raw) = snd (vTaskLight_u1_round raw s)"
| "do_round_u1 s DisplayRound = snd (vTaskLCD_u1_round s)"
| "do_round_u1 s AlarmRound = s"

definition run_u1 :: "round_u1 list \<Rightarrow> shared_u1" where
  "run_u1 sched = foldl do_round_u1 init_u1 sched"

fun samples_u1 :: "round_u1 list \<Rightarrow> int list" where
  "samples_u1 [] = []"
| "samples_u1 (ProducerRound raw # rs) = raw # samples_u1 rs"
| "samples_u1 (r # rs) = samples_u1 rs"

subsection \<open>Update 2: globals, task locals, producer\<close>

text \<open>
  \<open>light\<close>, \<open>average\<close> and \<open>changed\<close> are the globals. The other fields are locals that
  live across the rounds of their task: \<open>lightHistory\<close> and \<open>index\<close> of \<open>vTaskLight\<close>
  (the array is not initialised), \<open>anomaly\<close> of \<open>vTaskAnomaly\<close>.
\<close>

record state_u2 =
  light :: int
  average :: real
  changed :: bool
  vTaskLight_lightHistory :: "int list"
  vTaskLight_index :: nat
  vTaskAnomaly_anomaly :: bool

definition init_u2 :: "int list \<Rightarrow> state_u2" where
  "init_u2 h0 = \<lparr> light = 0, average = 0, changed = False, vTaskLight_lightHistory = h0,
                  vTaskLight_index = 0, vTaskAnomaly_anomaly = False \<rparr>"

definition vTaskLight_u2_round :: "int \<Rightarrow> state_u2 \<Rightarrow> state_u2" where
  "vTaskLight_u2_round raw s =
     (let h = (vTaskLight_lightHistory s)[vTaskLight_index s := raw];
          sm = sum_loop h 0 0
      in s\<lparr> vTaskLight_lightHistory := h,
            vTaskLight_index := (vTaskLight_index s + 1) mod 5,
            light := raw,
            average := float_of_sum_div_5 sm \<rparr>)"

definition light_run_u2 :: "state_u2 \<Rightarrow> int list \<Rightarrow> state_u2" where
  "light_run_u2 s0 samples = foldl (\<lambda>s raw. vTaskLight_u2_round raw s) s0 samples"

text \<open>
  The ring read from the write cursor onwards: the cursor points at the oldest slot, so this
  lists the slots in the order they were written.
\<close>

definition ring_in_write_order :: "nat \<Rightarrow> int list \<Rightarrow> int list" where
  "ring_in_write_order i h = drop i h @ take i h"

subsection \<open>The alarm task\<close>

definition LED_PIN_u1 :: nat where
  "LED_PIN_u1 = 1"

definition LED_PIN_u2 :: nat where
  "LED_PIN_u2 = 2"

text \<open>
  The blink loops \<^verbatim>\<open>for (int i = 0; i < 3; i++) { ... }\<close>; the argument of \<open>TaskDelay\<close>
  is the number of milliseconds handed to \<open>pdMS_TO_TICKS\<close>.
\<close>

function blink_loop_u1 :: "nat \<Rightarrow> event list" where
  "blink_loop_u1 i =
     (if i < 3
      then [DigitalWrite LED_PIN_u1 HIGH, TaskDelay 250,
            DigitalWrite LED_PIN_u1 LOW, TaskDelay 250] @ blink_loop_u1 (i + 1)
      else [])"
  by pat_completeness auto
termination
  by (relation "measure (\<lambda>i. 3 - i)") auto

declare blink_loop_u1.simps [simp del]

function blink_loop_u2 :: "nat \<Rightarrow> event list" where
  "blink_loop_u2 i =
     (if i < 3
      then [DigitalWrite LED_PIN_u2 HIGH, TaskDelay 250,
            DigitalWrite LED_PIN_u2 LOW, TaskDelay 2000] @ blink_loop_u2 (i + 1)
      else [])"
  by pat_completeness auto
termination
  by (relation "measure (\<lambda>i. 3 - i)") auto

declare blink_loop_u2.simps [simp del]

text \<open>
  Update 1 gives the semaphore back after the blinking. (Its tasks call the semaphore
  \<open>lightSemaphore\<close> where the global is declared \<open>xLightSemaphore\<close>; the model reads both
  as the one semaphore of the sketch.)
\<close>

definition vTaskAnomaly_u1_round :: "shared_u1 \<Rightarrow> event list" where
  "vTaskAnomaly_u1_round s =
     [SemTake]
     @ (if sma s > 3800 \<or> sma s < 300 then blink_loop_u1 0 @ [TaskDelay 2000] else [])
     @ [SemGive]"

text \<open>Update 2 records the verdict in \<open>anomaly\<close>, gives the semaphore back, then blinks.\<close>

definition vTaskAnomaly_u2_round :: "state_u2 \<Rightarrow> event list \<times> state_u2" where
  "vTaskAnomaly_u2_round s =
     (let anomaly = (if average s > 3800 \<or> average s < 300 then True
                     else vTaskAnomaly_anomaly s)
      in if anomaly
         then ([SemTake, SemGive] @ blink_loop_u2 0 @ [TaskDelay 50],
               s\<lparr> vTaskAnomaly_anomaly := False \<rparr>)
         else ([SemTake, SemGive, TaskDelay 50], s\<lparr> vTaskAnomaly_anomaly := anomaly \<rparr>))"

text \<open>The levels written to a pin, in order.\<close>

fun pin_writes :: "event list \<Rightarrow> level list" where
  "pin_writes [] = []"
| "pin_writes (DigitalWrite pin l # es) = l # pin_writes es"
| "pin_writes (e # es) = pin_writes es"

text \<open>
  Does every pin write and every delay of a trace happen while the task does not hold the
  semaphore? The first argument says whether it is held at the start.
\<close>

fun signals_outside_lock :: "bool \<Rightarrow> event list \<Rightarrow> bool" where
  "signals_outside_lock held [] = True"
| "signals_outside_lock held (SemTake # es) = signals_outside_lock True es"
| "signals_outside_lock held (SemGive # es) = signals_outside_lock False es"
| "signals_outside_lock held (DigitalWrite pin l # es) =
     (\<not> held \<and> signals_outside_lock held es)"
| "signals_outside_lock held (TaskDelay n # es) = (\<not> held \<and> signals_outside_lock held es)"
| "signals_outside_lock held (e # es) = signals_outside_lock held es"

fun is_lcd_event :: "event \<Rightarrow> bool" where
  "is_lcd_event LcdClear = True"
| "is_lcd_event (LcdSetCursor c r) = True"
| "is_lcd_event (LcdPrintStr t) = True"
| "is_lcd_event (LcdPrintInt n) = True"
| "is_lcd_event e = False"

subsection \<open>The prime task\<close>

text \<open>
  A run of the task is the events it produced and the fault that stopped it, if one did.
\<close>

datatype fault = DivideByZero | NullSemaphore

text \<open>
  Update 2: \<open>isPrime\<close> and the loop of \<open>vTaskPrime\<close>. The \<open>int\<close> arithmetic of the trial
  loop wraps around, in \<open>i * i\<close> and in \<open>i++\<close>. \<open>num % i == 0\<close> asks whether \<open>i\<close> divides
  \<open>num\<close>, which C's \<open>%\<close> and HOL's \<open>mod\<close> answer alike for every divisor but 0, where the
  ESP32 traps. The loop ends at the latest when the divisor has come round to 1.
\<close>

function isPrime_loop :: "int \<Rightarrow> int \<Rightarrow> fault + bool" where
  "isPrime_loop num i =
     (if int32_wrap (i * i) \<le> num
      then (if i = 0 then Inl DivideByZero
            else if num mod i = 0 then Inr False
            else isPrime_loop num (int32_wrap (i + 1)))
      else Inr True)"
  by pat_completeness auto
termination
proof (relation "measure (\<lambda>(num, i).
         if - 2147483648 \<le> i \<and> i < 2147483648 then nat ((1 - i) mod 4294967296)
         else 4294967296)")
  show "wf (measure (\<lambda>(num, i).
         if - 2147483648 \<le> i \<and> i < 2147483648 then nat ((1 - i) mod 4294967296)
         else 4294967296))"
    by simp
next
  fix num i :: int
  assume "int32_wrap (i * i) \<le> num" and "i \<noteq> 0" and nd: "num mod i \<noteq> 0"
  let ?j = "int32_wrap (i + 1)"
  have range: "- 2147483648 \<le> ?j \<and> ?j < 2147483648"
  proof -
    have "0 \<le> (i + 1 + 2147483648) mod 4294967296"
      and "(i + 1 + 2147483648) mod 4294967296 < 4294967296"
      by simp_all
    then show ?thesis unfolding int32_wrap_def by linarith
  qed
  have small: "(1 - ?j) mod 4294967296 < 4294967296" by simp
  have "nat ((1 - ?j) mod 4294967296)
          < (if - 2147483648 \<le> i \<and> i < 2147483648 then nat ((1 - i) mod 4294967296)
             else 4294967296)"
  proof (cases "- 2147483648 \<le> i \<and> i < 2147483648")
    case False
    have "nat ((1 - ?j) mod 4294967296) < 4294967296" using small by linarith
    then show ?thesis by (simp only: False simp_thms if_False)
  next
    case True
    from nd have ne1: "i \<noteq> 1" by auto
    have "(1 - ?j) mod 4294967296 < (1 - i) mod 4294967296"
    proof (cases "i = 2147483647")
      case max: True
      show ?thesis by (simp add: max int32_wrap_def)
    next
      case False
      with True have "0 \<le> i + 1 + 2147483648" and "i + 1 + 2147483648 < 4294967296"
        by linarith+
      then have "(i + 1 + 2147483648) mod 4294967296 = i + 1 + 2147483648"
        by (rule mod_pos_pos_trivial)
      then have j: "?j = i + 1" by (simp add: int32_wrap_def)
      show ?thesis
      proof (cases "i \<le> 0")
        case le: True
        with True have "0 \<le> 1 - i" "1 - i < 4294967296" "0 \<le> - i" "- i < 4294967296"
          by linarith+
        then have "(1 - i) mod 4294967296 = 1 - i" and "(- i) mod 4294967296 = - i"
          by (simp_all only: mod_pos_pos_trivial)
        then show ?thesis by (simp add: j)
      next
        case gt: False
        with ne1 True have a: "0 \<le> 1 - i + 4294967296" "1 - i + 4294967296 < 4294967296"
          and b: "0 \<le> - i + 4294967296" "- i + 4294967296 < 4294967296"
          by linarith+
        have "(1 - i + 4294967296) mod 4294967296 = (1 - i) mod 4294967296"
          by (rule mod_add_self2)
        moreover have "(1 - i + 4294967296) mod 4294967296 = 1 - i + 4294967296"
          using a by (rule mod_pos_pos_trivial)
        ultimately have m1: "(1 - i) mod 4294967296 = 1 - i + 4294967296" by simp
        have "(- i + 4294967296) mod 4294967296 = (- i) mod 4294967296"
          by (rule mod_add_self2)
        moreover have "(- i + 4294967296) mod 4294967296 = - i + 4294967296"
          using b by (rule mod_pos_pos_trivial)
        ultimately have m2: "(- i) mod 4294967296 = - i + 4294967296" by simp
        show ?thesis by (simp add: j m1 m2)
      qed
    qed
    moreover have "0 \<le> (1 - ?j) mod 4294967296" by simp
    ultimately have "nat ((1 - ?j) mod 4294967296) < nat ((1 - i) mod 4294967296)"
      by linarith
    then show ?thesis by (simp only: True simp_thms if_True)
  qed
  with range show "((num, ?j), (num, i)) \<in> measure (\<lambda>(num, i).
         if - 2147483648 \<le> i \<and> i < 2147483648 then nat ((1 - i) mod 4294967296)
         else 4294967296)"
    by simp
qed

declare isPrime_loop.simps [simp del]

definition isPrime :: "int \<Rightarrow> fault + bool" where
  "isPrime num = isPrime_loop num 2"

function vTaskPrime_loop_u2 :: "int \<Rightarrow> event list \<times> fault option" where
  "vTaskPrime_loop_u2 i =
     (if i \<le> 5000
      then (case isPrime i of
              Inl f \<Rightarrow> ([], Some f)
            | Inr b \<Rightarrow>
                (let (es, f) = vTaskPrime_loop_u2 (i + 1)
                 in ((if b then [SerialPrint ''Prime: '', SerialPrintln i] else [])
                     @ [TaskDelay 10] @ es, f)))
      else ([TaskDelete], None))"
  by pat_completeness auto
termination
  by (relation "measure (\<lambda>i. nat (5001 - i))") auto

declare vTaskPrime_loop_u2.simps [simp del]

definition vTaskPrime_u2 :: "event list \<times> fault option" where
  "vTaskPrime_u2 = vTaskPrime_loop_u2 2"

text \<open>The numbers printed with \<open>Serial.println\<close>, in order.\<close>

fun printed :: "event list \<Rightarrow> int list" where
  "printed [] = []"
| "printed (SerialPrintln n # es) = n # printed es"
| "printed (e # es) = printed es"

text \<open>
  Update 1: the inner loop tests \<open>num\<close>, which the sketch declares nowhere; it is the
  parameter \<open>num\<close> here. The divisor \<open>j\<close> starts at 0, and \<open>num % 0\<close> traps.
\<close>

function vTaskPrime_inner_u1 :: "int \<Rightarrow> int \<Rightarrow> int \<Rightarrow> event list \<times> fault option" where
  "vTaskPrime_inner_u1 num i j =
     (if j * j \<le> num
      then (if j = 0 then ([], Some DivideByZero)
            else (let (es, f) = vTaskPrime_inner_u1 num i (j + 1)
                  in ((if num mod j = 0 then [SerialPrint ''Prime: '', SerialPrintln i]
                       else []) @ es, f)))
      else ([], None))"
  by pat_completeness auto
termination
proof (relation "measure (\<lambda>(num, i, j). nat (num + 1 - j))")
  show "wf (measure (\<lambda>(num, i, j). nat (num + 1 - j)))"
    by simp
next
  fix num i j :: int
  assume le: "j * j \<le> num" and nz: "j \<noteq> 0"
  have "j \<le> j * j"
  proof (cases "j \<le> 0")
    case True
    have "0 \<le> j * j" by simp
    with True show ?thesis by linarith
  next
    case False
    then have "j * 1 \<le> j * j" by (intro mult_left_mono) simp_all
    then show ?thesis by simp
  qed
  with le have "j \<le> num" by linarith
  then show "((num, i, j + 1), (num, i, j)) \<in> measure (\<lambda>(num, i, j). nat (num + 1 - j))"
    by simp
qed

declare vTaskPrime_inner_u1.simps [simp del]

function vTaskPrime_loop_u1 :: "int \<Rightarrow> int \<Rightarrow> event list \<times> fault option" where
  "vTaskPrime_loop_u1 num i =
     (if i \<le> 5000
      then (case vTaskPrime_inner_u1 num i 0 of
              (es, Some f) \<Rightarrow> (es, Some f)
            | (es, None) \<Rightarrow> (let (es', f') = vTaskPrime_loop_u1 num (i + 1)
                             in (es @ es', f')))
      else ([TaskDelete], None))"
  by pat_completeness auto
termination
  by (relation "measure (\<lambda>(num, i). nat (5001 - i))") auto

declare vTaskPrime_loop_u1.simps [simp del]

definition vTaskPrime_u1 :: "int \<Rightarrow> event list \<times> fault option" where
  "vTaskPrime_u1 num = vTaskPrime_loop_u1 num 2"

subsection \<open>Startup\<close>

text \<open>
  \<open>xSemaphoreCreateBinary\<close> belongs to FreeRTOS, not to the sketch. Its two outcomes are
  parameters of \<open>setup\<close>: \<open>ok\<close>, whether the allocation succeeds (the handle is \<open>NULL\<close>
  otherwise), and \<open>fresh\<close>, whether a semaphore it has just made can be taken. FreeRTOS
  documents that the semaphore is made empty, which is \<open>fresh = False\<close>.
  A handle is \<open>None\<close> for \<open>NULL\<close>, or the semaphore's state: can it be taken?
\<close>

definition xSemaphoreCreateBinary :: "bool \<Rightarrow> bool \<Rightarrow> bool option" where
  "xSemaphoreCreateBinary ok fresh = (if ok then Some fresh else None)"

datatype task_code = VTaskLight | VTaskLCD | VTaskAnomaly | VTaskPrime

record created_task =
  task_code :: task_code
  task_name :: string
  stack_depth :: nat
  priority :: nat
  core :: nat

record system =
  xLightSemaphore :: "bool option"
  tasks :: "created_task list"

definition xTaskCreatePinnedToCore ::
    "task_code \<Rightarrow> string \<Rightarrow> nat \<Rightarrow> nat \<Rightarrow> nat \<Rightarrow> system \<Rightarrow> system" where
  "xTaskCreatePinnedToCore c n d pr co sys =
     sys\<lparr> tasks := tasks sys
            @ [\<lparr> task_code = c, task_name = n, stack_depth = d, priority = pr, core = co \<rparr>] \<rparr>"

definition setup_u1 :: "bool \<Rightarrow> bool \<Rightarrow> system" where
  "setup_u1 ok fresh =
     (let sys = \<lparr> xLightSemaphore = xSemaphoreCreateBinary ok fresh, tasks = [] \<rparr>
      in if xLightSemaphore sys \<noteq> None
         then (let sys = xTaskCreatePinnedToCore VTaskLight ''LightTask'' 2048 1 0 sys;
                   sys = xTaskCreatePinnedToCore VTaskLCD ''LCDTask'' 2048 1 0 sys;
                   sys = xTaskCreatePinnedToCore VTaskAnomaly ''AnomalyTask'' 2048 1 1 sys;
                   sys = xTaskCreatePinnedToCore VTaskPrime ''PrimeTask'' 4096 1 1 sys
               in sys)
         else sys)"

text \<open>
  Update 2 gives the semaphore once before it tests the handle. \<open>xSemaphoreGive\<close> on a
  \<open>NULL\<close> handle stops the program (FreeRTOS asserts the handle, and reads through it
  otherwise); on a semaphore it leaves the semaphore available.
\<close>

definition xSemaphoreGive :: "bool option \<Rightarrow> fault + bool option" where
  "xSemaphoreGive h = (case h of None \<Rightarrow> Inl NullSemaphore | Some b \<Rightarrow> Inr (Some True))"

definition setup_u2 :: "bool \<Rightarrow> bool \<Rightarrow> fault + system" where
  "setup_u2 ok fresh =
     (case xSemaphoreGive (xSemaphoreCreateBinary ok fresh) of
        Inl f \<Rightarrow> Inl f
      | Inr h \<Rightarrow>
          (let sys = \<lparr> xLightSemaphore = h, tasks = [] \<rparr>
           in if xLightSemaphore sys \<noteq> None
              then (let sys = xTaskCreatePinnedToCore VTaskLight ''LightTask'' 2048 2 0 sys;
                        sys = xTaskCreatePinnedToCore VTaskLCD ''LCDTask'' 2048 4 0 sys;
                        sys = xTaskCreatePinnedToCore VTaskAnomaly ''AnomalyTask'' 2048 3 1 sys;
                        sys = xTaskCreatePinnedToCore VTaskPrime ''PrimeTask'' 2048 1 1 sys
                    in Inr sys)
              else Inr sys))"

section \<open>Facts about the shared integers\<close>

lemma int32_wrap_id: "- 2147483648 \<le> x \<Longrightarrow> x < 2147483648 \<Longrightarrow> int32_wrap x = x"
  by (simp add: int32_wrap_def)

lemma budget_decrement_le: "budget_decrement ts r \<le> r"
  by (simp add: budget_decrement_def word_sub_le)

lemma budget_round_le:
  "r \<le> period \<Longrightarrow> budget_reset period (budget_decrement ts r) \<le> period"
  using budget_decrement_le [of ts r] by (auto simp: budget_reset_def)

section \<open>Part I: the counter, the budgets, the monitor\<close>

lemma counterTask_round_count:
  "count_in_range s \<Longrightarrow>
   currentCount (counterTask_round p s) = (if currentCount s = 20 then 1 else currentCount s + 1)"
  by (simp add: counterTask_round_def count_in_range_def Let_def int32_wrap_id)

lemma counterTask_round_in_range:
  "count_in_range s \<Longrightarrow> count_in_range (counterTask_round p s)"
  using counterTask_round_count [of s p] by (auto simp: count_in_range_def)

lemma part1_round_count: "count_in_range s \<Longrightarrow> count_in_range (part1_round p s t)"
proof (cases t)
  case CounterTask
  assume "count_in_range s"
  with CounterTask show ?thesis by (simp add: counterTask_round_in_range)
qed (simp_all add: count_in_range_def ledTask_round_def alphabetTask_round_def
      scheduleTasks_round_def Let_def)

lemma foldl_count:
  "count_in_range s \<Longrightarrow> count_in_range (foldl (part1_round p) s sched)"
  by (induction sched arbitrary: s) (simp_all add: part1_round_count)

lemma init_count: "count_in_range (part1_init p)"
  by (simp add: count_in_range_def part1_init_def)

lemma part1_round_budgets:
  "budgets_in_range p s \<Longrightarrow> budgets_in_range p (part1_round p s t)"
  by (cases t) (simp_all add: budgets_in_range_def ledTask_round_def counterTask_round_def
       alphabetTask_round_def scheduleTasks_round_def Let_def budget_round_le)

lemma foldl_budgets:
  "budgets_in_range p s \<Longrightarrow> budgets_in_range p (foldl (part1_round p) s sched)"
  by (induction sched arbitrary: s) (simp_all add: part1_round_budgets)

lemma init_budgets: "budgets_in_range p (part1_init p)"
  by (simp add: budgets_in_range_def part1_init_def)

text \<open>
  Claim C10. \<open>currentCount\<close> stays in the range 1..20: it is there after every schedule of
  the four tasks from the initial state, and a round of \<open>counterTask\<close> that starts in the
  range adds one, goes from 20 back to 1, and ends in the range.
\<close>

theorem currentCount_stays_in_1_20:
  "count_in_range (part1_run p sched) \<and>
   (count_in_range s \<longrightarrow>
      count_in_range (counterTask_round p s) \<and>
      currentCount (counterTask_round p s)
        = (if currentCount s = 20 then 1 else currentCount s + 1))"
  by (simp add: part1_run_def foldl_count init_count counterTask_round_count
      counterTask_round_in_range)

theorem currentCount_stays_in_1_20_witness:
  "count_in_range (part1_run 1 [CounterTask, LedTask, CounterTask]) \<and>
   count_in_range (part1_init 1) \<and>
   count_in_range (counterTask_round 1 (part1_init 1)) \<and>
   currentCount (counterTask_round 1 (part1_init 1)) = 2"
  using currentCount_stays_in_1_20 [of 1 "[CounterTask, LedTask, CounterTask]" "part1_init 1"]
  by (simp add: part1_init_def count_in_range_def)

text \<open>
  Claim C8. A round of the monitor computes the minimum of the three remaining times and
  leaves every global as it was: the state it returns is the state it was given.
\<close>

theorem scheduleTasks_round_changes_nothing:
  "snd (scheduleTasks_round s) = s \<and>
   fst (scheduleTasks_round s)
     = min (remainingLedTime s) (min (remainingCounterTime s) (remainingAlphabetTime s)) \<and>
   part1_round p s SchedulerTask = s"
  by (auto simp: scheduleTasks_round_def Let_def min_def)

text \<open>
  Claim C6, as stated: a budget that has reached 0 is still 0 when its round ends and
  goes back to the period one round later. In the first round of \<open>ledTask\<close> (one tick per
  millisecond) the decrement takes 500 to 0, and the round ends with 500.
\<close>

theorem remaining_zero_until_next_round_counterexample:
  "\<not> (budget_decrement (timeSlice 1) (remainingLedTime (part1_init 1)) = 0 \<longrightarrow>
      remainingLedTime (ledTask_round 1 (part1_init 1)) = 0)"
  by (simp add: budget_decrement_def budget_reset_def timeSlice_def part1_init_def
      ledTask_round_def ledTaskExecutionTime_def Let_def)

text \<open>
  Claim C6, amended. After every schedule of the four tasks each remaining time is at most
  its period (and, being unsigned, at least 0); the decrement never wraps below zero; when
  the decrement of a round reaches 0, the owning task sets the budget back to its period
  in that same round; a round of the monitor leaves the three budgets as they were.
\<close>

theorem budgets_bounded_and_reset_by_owner:
  "budgets_in_range p (part1_run p sched) \<and>
   budget_decrement ts r \<le> r \<and>
   (budget_decrement (timeSlice p) (remainingLedTime s) = 0 \<longrightarrow>
      remainingLedTime (ledTask_round p s) = ledTaskExecutionTime p) \<and>
   (budget_decrement (timeSlice p) (remainingCounterTime s) = 0 \<longrightarrow>
      remainingCounterTime (counterTask_round p s) = counterTaskExecutionTime p) \<and>
   (budget_decrement (timeSlice p) (remainingAlphabetTime s) = 0 \<longrightarrow>
      remainingAlphabetTime (alphabetTask_round p s) = alphabetTaskExecutionTime p) \<and>
   remainingLedTime (snd (scheduleTasks_round s)) = remainingLedTime s \<and>
   remainingCounterTime (snd (scheduleTasks_round s)) = remainingCounterTime s \<and>
   remainingAlphabetTime (snd (scheduleTasks_round s)) = remainingAlphabetTime s"
  by (simp add: part1_run_def foldl_budgets init_budgets budget_decrement_le
      ledTask_round_def counterTask_round_def alphabetTask_round_def Let_def
      budget_reset_def scheduleTasks_round_def)

theorem budgets_bounded_and_reset_by_owner_witness:
  "budget_decrement (timeSlice 1) (remainingLedTime (part1_init 1)) = 0 \<and>
   budget_decrement (timeSlice 1)
     (remainingCounterTime (counterTask_round 1 (part1_init 1))) = 0 \<and>
   budget_decrement (timeSlice 1)
     (remainingAlphabetTime ((part1_init 1)\<lparr> remainingAlphabetTime := 1000 \<rparr>)) = 0 \<and>
   budgets_in_range 1 (part1_run 1 [LedTask, CounterTask, SchedulerTask, AlphabetTask]) \<and>
   remainingLedTime (ledTask_round 1 (part1_init 1)) = 500 \<and>
   remainingCounterTime (counterTask_round 1 (counterTask_round 1 (part1_init 1))) = 2000 \<and>
   remainingAlphabetTime
     (alphabetTask_round 1 ((part1_init 1)\<lparr> remainingAlphabetTime := 1000 \<rparr>)) = 13000"
  using
    budgets_bounded_and_reset_by_owner
      [of 1 "[LedTask, CounterTask, SchedulerTask, AlphabetTask]" 0 0 "part1_init 1"]
    budgets_bounded_and_reset_by_owner
      [of 1 "[]" 0 0 "counterTask_round 1 (part1_init 1)"]
    budgets_bounded_and_reset_by_owner
      [of 1 "[]" 0 0 "(part1_init 1)\<lparr> remainingAlphabetTime := 1000 \<rparr>"]
  by (simp add: budget_decrement_def budget_reset_def timeSlice_def part1_init_def
      ledTaskExecutionTime_def counterTaskExecutionTime_def alphabetTaskExecutionTime_def
      counterTask_round_def Let_def)

section \<open>Facts about the rounding\<close>

lemma float_exp_up_props:
  "e \<le> emax \<Longrightarrow> 2 powi e \<le> x \<Longrightarrow>
   e \<le> float_exp_up emax e x \<and> float_exp_up emax e x \<le> emax \<and>
   2 powi (float_exp_up emax e x) \<le> x \<and>
   (float_exp_up emax e x < emax \<longrightarrow> x < 2 powi (float_exp_up emax e x + 1))"
proof (induction emax e x rule: float_exp_up.induct)
  case (1 emax e x)
  show ?case
  proof (cases "e < emax \<and> 2 powi (e + 1) \<le> x")
    case True
    then have step: "float_exp_up emax e x = float_exp_up emax (e + 1) x"
      using float_exp_up.simps [of emax e x] by simp
    from True have "e + 1 \<le> emax" and "2 powi (e + 1) \<le> x" by simp_all
    with "1.IH" [OF True] show ?thesis
      unfolding step by simp
  next
    case False
    then have "\<not> e < emax \<or> \<not> 2 powi (e + 1) \<le> x" by simp
    then have stop: "float_exp_up emax e x = e"
      by (elim disjE) (simp_all add: float_exp_up.simps [of emax e x])
    from False "1.prems" show ?thesis
      unfolding stop by auto
  qed
qed

lemma float_exp_down_props:
  "emin \<le> e \<Longrightarrow> x < 2 powi (e + 1) \<Longrightarrow>
   emin \<le> float_exp_down emin e x \<and> float_exp_down emin e x \<le> e \<and>
   x < 2 powi (float_exp_down emin e x + 1) \<and>
   (emin < float_exp_down emin e x \<longrightarrow> 2 powi (float_exp_down emin e x) \<le> x)"
proof (induction emin e x rule: float_exp_down.induct)
  case (1 emin e x)
  show ?case
  proof (cases "emin < e \<and> x < 2 powi e")
    case True
    then have step: "float_exp_down emin e x = float_exp_down emin (e - 1) x"
      using float_exp_down.simps [of emin e x] by simp
    from True have "emin \<le> e - 1" and "x < 2 powi (e - 1 + 1)" by simp_all
    with "1.IH" [OF True] show ?thesis
      unfolding step by simp
  next
    case False
    then have "\<not> emin < e \<or> \<not> x < 2 powi e" by simp
    then have stop: "float_exp_down emin e x = e"
      by (elim disjE) (simp_all add: float_exp_down.simps [of emin e x])
    from False "1.prems" show ?thesis
      unfolding stop by auto
  qed
qed

lemma float_exponent_range:
  assumes "emin \<le> - 1" and "0 \<le> emax"
  shows "emin \<le> float_exponent emin emax x \<and> float_exponent emin emax x \<le> emax"
proof (cases "1 \<le> x")
  case True
  then have "2 powi 0 \<le> x" by simp
  with float_exp_up_props [of 0 emax x] assms True show ?thesis
    by (simp add: float_exponent_def)
next
  case False
  then have "x < 2 powi (- 1 + 1)" by simp
  with float_exp_down_props [of emin "- 1" x] assms False show ?thesis
    by (simp add: float_exponent_def)
qed

lemma float_exponent_lower:
  assumes "emin \<le> - 1" and "0 \<le> emax" and "2 powi emin \<le> x"
  shows "2 powi (float_exponent emin emax x) \<le> x"
proof (cases "1 \<le> x")
  case True
  then have "2 powi 0 \<le> x" by simp
  with float_exp_up_props [of 0 emax x] assms True show ?thesis
    by (simp add: float_exponent_def)
next
  case False
  then have lt: "x < 2 powi (- 1 + 1)" by simp
  let ?r = "float_exp_down emin (- 1) x"
  from float_exp_down_props [of emin "- 1" x] assms lt
  have r: "emin \<le> ?r" "emin < ?r \<longrightarrow> 2 powi ?r \<le> x" by simp_all
  have "2 powi ?r \<le> x"
  proof (cases "emin < ?r")
    case True with r show ?thesis by simp
  next
    case False
    with r have "?r = emin" by simp
    with assms(3) show ?thesis by simp
  qed
  with False show ?thesis by (simp add: float_exponent_def)
qed

lemma float_exponent_upper:
  assumes "emin \<le> - 1" and "0 \<le> emax" and "x < 2 powi (emax + 1)"
  shows "x < 2 powi (float_exponent emin emax x + 1)"
proof (cases "1 \<le> x")
  case True
  then have one: "2 powi 0 \<le> x" by simp
  let ?r = "float_exp_up emax 0 x"
  from float_exp_up_props [of 0 emax x] assms one
  have r: "?r \<le> emax" "?r < emax \<longrightarrow> x < 2 powi (?r + 1)" by simp_all
  have "x < 2 powi (?r + 1)"
  proof (cases "?r < emax")
    case True with r show ?thesis by simp
  next
    case False
    with r have "?r = emax" by simp
    with assms(3) show ?thesis by simp
  qed
  with True show ?thesis by (simp add: float_exponent_def)
next
  case False
  then have "x < 2 powi (- 1 + 1)" by simp
  with float_exp_down_props [of emin "- 1" x] assms False show ?thesis
    by (simp add: float_exponent_def)
qed

text \<open>Where a magnitude lies between two powers of two, so does its exponent.\<close>

lemma float_exponent_ge:
  assumes "emin \<le> - 1" and "0 \<le> emax" and "k \<le> emax" and "2 powi k \<le> x"
  shows "k \<le> float_exponent emin emax x"
proof (rule ccontr)
  assume "\<not> k \<le> float_exponent emin emax x"
  then have lt: "float_exponent emin emax x + 1 \<le> k" by simp
  with assms(3) have "float_exponent emin emax x + 1 \<le> emax" by simp
  have "x < 2 powi (emax + 1) \<or> 2 powi (emax + 1) \<le> x" by linarith
  then show False
  proof
    assume "x < 2 powi (emax + 1)"
    with assms have "x < 2 powi (float_exponent emin emax x + 1)"
      by (intro float_exponent_upper)
    also have "\<dots> \<le> 2 powi k" using lt by (intro power_int_increasing) simp_all
    finally show False using assms(4) by simp
  next
    assume big: "2 powi (emax + 1) \<le> x"
    have "(1::real) \<le> 2 powi (emax + 1)" using assms(2) by (intro one_le_power_int) simp_all
    with big have one: "1 \<le> x" "2 powi 0 \<le> x" by simp_all
    let ?r = "float_exp_up emax 0 x"
    from float_exp_up_props [of 0 emax x] assms(2) one
    have r: "?r < emax \<longrightarrow> x < 2 powi (?r + 1)" by simp
    from lt assms(3) one have "?r < emax" by (simp add: float_exponent_def)
    with r have "x < 2 powi (?r + 1)" by simp
    also have "\<dots> \<le> 2 powi (emax + 1)"
      using \<open>?r < emax\<close> by (intro power_int_increasing) simp_all
    finally show False using big by simp
  qed
qed

lemma float_exponent_le:
  assumes "emin \<le> - 1" and "0 \<le> emax" and "emin \<le> k" and "2 powi emin \<le> x"
    and "x < 2 powi (k + 1)"
  shows "float_exponent emin emax x \<le> k"
proof -
  have "2 powi (float_exponent emin emax x) \<le> x"
    using assms by (intro float_exponent_lower)
  also note assms(5)
  finally have "(2::real) powi (float_exponent emin emax x) < 2 powi (k + 1)" .
  moreover have "\<not> (2::real) powi (float_exponent emin emax x) < 2 powi (k + 1)"
    if "k + 1 \<le> float_exponent emin emax x"
  proof -
    have "(2::real) powi (k + 1) \<le> 2 powi (float_exponent emin emax x)"
      using that by (intro power_int_increasing) simp_all
    then show ?thesis by simp
  qed
  ultimately show ?thesis by fastforce
qed

lemma round_half_even_error: "\<bar>of_int (round_half_even y) - y\<bar> \<le> 1 / 2"
proof -
  have "of_int \<lfloor>y\<rfloor> \<le> y" and "y < of_int \<lfloor>y\<rfloor> + 1" by linarith+
  then show ?thesis
    by (simp add: round_half_even_def Let_def)
qed

lemma round_half_even_le: "y \<le> of_int n \<Longrightarrow> round_half_even y \<le> n"
proof -
  assume y: "y \<le> of_int n"
  show ?thesis
  proof (cases "y = of_int n")
    case True
    then show ?thesis by (simp add: round_half_even_def)
  next
    case False
    with y have "y < of_int n" by simp
    then have "\<lfloor>y\<rfloor> < n" by (simp add: floor_less_iff)
    then have "\<lfloor>y\<rfloor> + 1 \<le> n" by simp
    then show ?thesis by (simp add: round_half_even_def Let_def)
  qed
qed

lemma round_half_even_nonneg: "0 \<le> y \<Longrightarrow> 0 \<le> round_half_even y"
proof -
  assume "0 \<le> y"
  then have "0 \<le> \<lfloor>y\<rfloor>" by simp
  then show ?thesis by (simp add: round_half_even_def Let_def)
qed

lemma float_ulp_pos: "0 < float_ulp p emin emax m"
  by (simp add: float_ulp_def)

lemma float_round_abs:
  "x \<noteq> 0 \<Longrightarrow>
   \<bar>float_round p emin emax x\<bar>
     = of_int (round_half_even (\<bar>x\<bar> / float_ulp p emin emax \<bar>x\<bar>)) * float_ulp p emin emax \<bar>x\<bar>"
proof -
  assume x: "x \<noteq> 0"
  let ?u = "float_ulp p emin emax \<bar>x\<bar>"
  have u: "0 < ?u" by (rule float_ulp_pos)
  then have "0 \<le> \<bar>x\<bar> / ?u" by simp
  then have "0 \<le> round_half_even (\<bar>x\<bar> / ?u)" by (rule round_half_even_nonneg)
  then have nn: "0 \<le> of_int (round_half_even (\<bar>x\<bar> / ?u)) * ?u" using u by simp
  have "float_round p emin emax x = sgn x * (of_int (round_half_even (\<bar>x\<bar> / ?u)) * ?u)"
    using x by (simp add: float_round_def Let_def)
  then have "\<bar>float_round p emin emax x\<bar> = \<bar>sgn x\<bar> * \<bar>of_int (round_half_even (\<bar>x\<bar> / ?u)) * ?u\<bar>"
    by (simp only: abs_mult)
  also have "\<bar>sgn x\<bar> = 1" using x by (simp add: abs_sgn_eq)
  finally show ?thesis using nn by simp
qed

lemma float_round_abs_error:
  assumes "x \<noteq> 0"
  shows "\<bar>\<bar>float_round p emin emax x\<bar> - \<bar>x\<bar>\<bar> \<le> float_ulp p emin emax \<bar>x\<bar> / 2"
proof -
  let ?u = "float_ulp p emin emax \<bar>x\<bar>"
  let ?n = "round_half_even (\<bar>x\<bar> / ?u)"
  have u: "0 < ?u" by (rule float_ulp_pos)
  have "\<bar>of_int ?n - \<bar>x\<bar> / ?u\<bar> \<le> 1 / 2" by (rule round_half_even_error)
  then have "\<bar>of_int ?n - \<bar>x\<bar> / ?u\<bar> * ?u \<le> 1 / 2 * ?u"
    using u by (intro mult_right_mono) simp_all
  moreover have "\<bar>of_int ?n - \<bar>x\<bar> / ?u\<bar> * ?u = \<bar>of_int ?n * ?u - \<bar>x\<bar>\<bar>"
  proof -
    have "\<bar>of_int ?n - \<bar>x\<bar> / ?u\<bar> * ?u = \<bar>(of_int ?n - \<bar>x\<bar> / ?u) * ?u\<bar>"
      using u by (simp add: abs_mult)
    also have "(of_int ?n - \<bar>x\<bar> / ?u) * ?u = of_int ?n * ?u - \<bar>x\<bar>"
      using u by (simp add: field_simps)
    finally show ?thesis .
  qed
  ultimately show ?thesis
    using float_round_abs [OF assms, of p emin emax] by simp
qed

lemma float_round_sign:
  "float_round p emin emax x = sgn x * \<bar>float_round p emin emax x\<bar>"
proof (cases "x = 0")
  case True
  then show ?thesis by (simp add: float_round_def)
next
  case False
  let ?u = "float_ulp p emin emax \<bar>x\<bar>"
  let ?m = "of_int (round_half_even (\<bar>x\<bar> / ?u)) * ?u"
  have "float_round p emin emax x = sgn x * ?m"
    using False by (simp add: float_round_def Let_def)
  then show ?thesis using float_round_abs [OF False, of p emin emax] by simp
qed

lemma float_round_error:
  assumes "x \<noteq> 0"
  shows "\<bar>float_round p emin emax x - x\<bar> \<le> float_ulp p emin emax \<bar>x\<bar> / 2"
proof -
  have "sgn x * (\<bar>float_round p emin emax x\<bar> - \<bar>x\<bar>)
          = sgn x * \<bar>float_round p emin emax x\<bar> - sgn x * \<bar>x\<bar>"
    by (rule right_diff_distrib)
  also have "\<dots> = float_round p emin emax x - x"
    by (simp only: mult_sgn_abs float_round_sign [symmetric])
  finally have "float_round p emin emax x - x
                  = sgn x * (\<bar>float_round p emin emax x\<bar> - \<bar>x\<bar>)"
    by (rule sym)
  then have "\<bar>float_round p emin emax x - x\<bar> = \<bar>sgn x\<bar> * \<bar>\<bar>float_round p emin emax x\<bar> - \<bar>x\<bar>\<bar>"
    by (simp only: abs_mult)
  also have "\<bar>sgn x\<bar> = 1" using assms by (simp add: abs_sgn_eq)
  finally show ?thesis using float_round_abs_error [OF assms, of p emin emax] by simp
qed

lemma float_ulp_half_le:
  assumes "emin \<le> - 1" and "0 \<le> emax" and "2 powi emin \<le> m"
  shows "float_ulp p emin emax m / 2 \<le> m / 2 ^ p"
proof -
  let ?e = "float_exponent emin emax m"
  have "float_ulp p emin emax m = 2 powi (?e + (1 - int p))"
    by (simp add: float_ulp_def algebra_simps)
  also have "\<dots> = 2 powi ?e * 2 powi (1 - int p)"
    by (rule power_int_add) simp
  also have "(2::real) powi (1 - int p) = 2 powi 1 * 2 powi (- int p)"
    using power_int_add [of "2::real" 1 "- int p"] by simp
  also have "(2::real) powi (- int p) = 1 / 2 ^ p"
    by (simp add: power_int_minus_divide)
  finally have u: "float_ulp p emin emax m / 2 = 2 powi ?e / 2 ^ p" by simp
  have "2 powi ?e \<le> m" using assms by (rule float_exponent_lower)
  then have "2 powi ?e / 2 ^ p \<le> m / 2 ^ p" by (intro divide_right_mono) simp_all
  with u show ?thesis by simp
qed

lemma float_round_relative_error:
  assumes "emin \<le> - 1" and "0 \<le> emax" and "2 powi emin \<le> \<bar>x\<bar>"
  shows "\<bar>float_round p emin emax x - x\<bar> \<le> \<bar>x\<bar> / 2 ^ p"
proof -
  have "0 < (2::real) powi emin" by simp
  with assms(3) have "0 < \<bar>x\<bar>" by linarith
  then have "x \<noteq> 0" by simp
  then have "\<bar>float_round p emin emax x - x\<bar> \<le> float_ulp p emin emax \<bar>x\<bar> / 2"
    by (rule float_round_error)
  also have "\<dots> \<le> \<bar>x\<bar> / 2 ^ p" using assms by (rule float_ulp_half_le)
  finally show ?thesis .
qed

lemma float32_ulp_below_4:
  assumes "m < 4"
  shows "float_ulp 24 (- 126) 127 m \<le> 1 / 2 ^ 22"
proof -
  let ?e = "float_exponent (- 126) 127 m"
  have "?e \<le> 1"
  proof (cases "1 \<le> m")
    case True
    then have "2 powi (- 126) \<le> m"
      using power_int_increasing [of "- 126" 0 "2::real"] by simp
    moreover from assms have "m < 2 powi (1 + 1)" by simp
    ultimately show ?thesis by (intro float_exponent_le) simp_all
  next
    case False
    then have "m < 2 powi (- 1 + 1)" by simp
    with float_exp_down_props [of "- 126" "- 1" m] False show ?thesis
      by (simp add: float_exponent_def)
  qed
  then have "(2::real) powi (?e - 23) \<le> 2 powi (- 22)"
    by (intro power_int_increasing) simp_all
  then show ?thesis by (simp add: float_ulp_def)
qed

lemma float32_ulp_4_to_8:
  assumes "4 \<le> m" and "m < 8"
  shows "float_ulp 24 (- 126) 127 m = 1 / 2 ^ 21"
proof -
  let ?e = "float_exponent (- 126) 127 m"
  from assms(1) have low: "2 powi (- 126) \<le> m"
    using power_int_increasing [of "- 126" 0 "2::real"] by simp
  from assms(1) have "2 powi 2 \<le> m" by simp
  then have "2 \<le> ?e" by (intro float_exponent_ge) simp_all
  moreover from assms(2) have "m < 2 powi (2 + 1)" by simp
  with low have "?e \<le> 2" by (intro float_exponent_le) simp_all
  ultimately have "?e = 2" by simp
  then show ?thesis by (simp add: float_ulp_def)
qed

lemma float32_round_le_5:
  assumes "\<bar>d\<bar> \<le> 5"
  shows "\<bar>float32_round d\<bar> \<le> 5"
proof (cases "d = 0")
  case True
  then show ?thesis by (simp add: float32_round_def float_round_def)
next
  case False
  let ?u = "float_ulp 24 (- 126) 127 \<bar>d\<bar>"
  show ?thesis
  proof (cases "\<bar>d\<bar> < 4")
    case True
    then have "?u \<le> 1 / 2 ^ 22" by (rule float32_ulp_below_4)
    then have small: "?u \<le> 1 / 4194304" by simp
    have "\<bar>\<bar>float_round 24 (- 126) 127 d\<bar> - \<bar>d\<bar>\<bar> \<le> ?u / 2"
      using False by (rule float_round_abs_error)
    with small True have "\<bar>float_round 24 (- 126) 127 d\<bar> \<le> 5" by linarith
    then show ?thesis by (simp only: float32_round_def)
  next
    case False
    with assms have u: "?u = 1 / 2 ^ 21" by (intro float32_ulp_4_to_8) simp_all
    from assms have "\<bar>d\<bar> / ?u \<le> of_int 10485760" by (simp add: u)
    then have "round_half_even (\<bar>d\<bar> / ?u) \<le> 10485760" by (rule round_half_even_le)
    then have "(of_int (round_half_even (\<bar>d\<bar> / ?u)) :: real) \<le> 10485760" by simp
    then have "of_int (round_half_even (\<bar>d\<bar> / ?u)) * ?u \<le> 5" by (simp add: u)
    with float_round_abs [OF \<open>d \<noteq> 0\<close>, of 24 "- 126" 127] show ?thesis
      by (simp add: float32_round_def)
  qed
qed

lemma float32_round_gt_5:
  assumes "5 + 1 / 2 ^ 22 < \<bar>d\<bar>"
  shows "5 < \<bar>float32_round d\<bar>"
proof -
  from assms have nz: "d \<noteq> 0" by auto
  let ?u = "float_ulp 24 (- 126) 127 \<bar>d\<bar>"
  have err: "\<bar>\<bar>float_round 24 (- 126) 127 d\<bar> - \<bar>d\<bar>\<bar> \<le> ?u / 2"
    using nz by (rule float_round_abs_error)
  show ?thesis
  proof (cases "\<bar>d\<bar> < 8")
    case True
    with assms have "?u = 1 / 2 ^ 21" by (intro float32_ulp_4_to_8) simp_all
    then have u: "?u = 1 / 2097152" by simp
    from assms have "5 + 1 / 4194304 < \<bar>d\<bar>" by simp
    with err u have "5 < \<bar>float_round 24 (- 126) 127 d\<bar>" by linarith
    then show ?thesis by (simp only: float32_round_def)
  next
    case False
    then have "2 powi (- 126) \<le> \<bar>d\<bar>"
      using power_int_increasing [of "- 126" 0 "2::real"] by simp
    then have "?u / 2 \<le> \<bar>d\<bar> / 2 ^ 24" by (intro float_ulp_half_le) simp_all
    then have "?u / 2 \<le> \<bar>d\<bar> / 16777216" by simp
    with err False have "5 < \<bar>float_round 24 (- 126) 127 d\<bar>" by linarith
    then show ?thesis by (simp only: float32_round_def)
  qed
qed

lemma float_of_sum_div_5_zero: "float_of_sum_div_5 0 = 0"
  by (simp add: float_of_sum_div_5_def float64_round_def float32_round_def float_round_def)

lemma float_of_sum_div_5_tolerance:
  "\<bar>float_of_sum_div_5 n - real_of_int n / 5\<bar> \<le> \<bar>real_of_int n / 5\<bar> / 2 ^ 23"
proof (cases "n = 0")
  case True
  then show ?thesis by (simp add: float_of_sum_div_5_zero)
next
  case False
  let ?x = "real_of_int n / 5"
  let ?y = "float64_round ?x"
  let ?z = "float32_round ?y"
  from False have "1 \<le> \<bar>n\<bar>" by linarith
  then have "1 \<le> \<bar>real_of_int n\<bar>" by (metis of_int_1_le_iff of_int_abs)
  then have x: "1 / 5 \<le> \<bar>?x\<bar>" by simp
  have p64: "(2::real) powi (- 1022) \<le> 2 powi (- 3)"
    by (rule power_int_increasing) simp_all
  have p32: "(2::real) powi (- 126) \<le> 2 powi (- 4)"
    by (rule power_int_increasing) simp_all
  have "(2::real) powi (- 3) \<le> 1 / 5" by simp
  with p64 x have "2 powi (- 1022) \<le> \<bar>?x\<bar>" by linarith
  then have "\<bar>float_round 53 (- 1022) 1023 ?x - ?x\<bar> \<le> \<bar>?x\<bar> / 2 ^ 53"
    by (intro float_round_relative_error) simp_all
  then have e64: "\<bar>?y - ?x\<bar> \<le> \<bar>?x\<bar> / 9007199254740992"
    by (simp add: float64_round_def)
  with x have ylow: "1 / 16 \<le> \<bar>?y\<bar>" by linarith
  have "(2::real) powi (- 4) = 1 / 16" by simp
  with p32 ylow have "2 powi (- 126) \<le> \<bar>?y\<bar>" by linarith
  then have "\<bar>float_round 24 (- 126) 127 ?y - ?y\<bar> \<le> \<bar>?y\<bar> / 2 ^ 24"
    by (intro float_round_relative_error) simp_all
  then have e32: "\<bar>?z - ?y\<bar> \<le> \<bar>?y\<bar> / 16777216"
    by (simp add: float32_round_def)
  from e64 e32 have "\<bar>?z - ?x\<bar> \<le> \<bar>?x\<bar> / 8388608" by linarith
  then show ?thesis by (simp add: float_of_sum_div_5_def)
qed

lemma float32_sub_gt_5_exact: "5 < \<bar>float32_sub a b\<bar> \<Longrightarrow> 5 < \<bar>a - b\<bar>"
  using float32_round_le_5 [of "a - b"] unfolding float32_sub_def by linarith

lemma float32_sub_gt_5_from_exact: "5 + 1 / 2 ^ 22 < \<bar>a - b\<bar> \<Longrightarrow> 5 < \<bar>float32_sub a b\<bar>"
  unfolding float32_sub_def by (rule float32_round_gt_5)

text \<open>
  The rules that evaluate the rounding on a given number.
\<close>

lemmas float_eval =
  float_of_sum_div_5_def float32_sub_def float64_round_def float32_round_def float_round_def
  float_ulp_def float_exponent_def float_exp_up.simps float_exp_down.simps
  round_half_even_def Let_def

section \<open>Part II: the history ring and the moving average\<close>

lemma length5E:
  assumes "length (h :: 'a list) = 5"
  obtains a b c d e where "h = [a, b, c, d, e]"
proof -
  from assms obtain a b c d e where "h = [a, b, c, d, e]"
    by (auto simp: eval_nat_numeral length_Suc_conv)
  then show ?thesis by (rule that)
qed

lemma less5_cases: "i < (5::nat) \<Longrightarrow> i = 0 \<or> i = 1 \<or> i = 2 \<or> i = 3 \<or> i = 4"
  by arith

lemma ring_step:
  assumes "length h = 5" and "i < 5"
  shows "ring_in_write_order ((i + 1) mod 5) (h[i := raw]) = tl (ring_in_write_order i h) @ [raw]"
proof -
  from assms(1) obtain a b c d e where h: "h = [a, b, c, d, e]" by (rule length5E)
  from assms(2) less5_cases have "i = 0 \<or> i = 1 \<or> i = 2 \<or> i = 3 \<or> i = 4" by blast
  then show ?thesis
    by (elim disjE) (simp_all add: h ring_in_write_order_def)
qed

lemma ring_length: "length (ring_in_write_order i h) = length h"
  by (simp add: ring_in_write_order_def)

lemma ring_sum: "sum_list (ring_in_write_order i h) = sum_list h"
proof -
  have "sum_list (take i h) + sum_list (drop i h) = sum_list (take i h @ drop i h)"
    by (simp only: sum_list_append)
  then show ?thesis by (simp add: ring_in_write_order_def)
qed

lemma ring_set: "set (ring_in_write_order i h) = set h"
proof -
  have "set (take i h) \<union> set (drop i h) = set (take i h @ drop i h)"
    by (simp only: set_append)
  then show ?thesis by (simp add: ring_in_write_order_def Un_commute)
qed

lemma abs_bound_int32:
  fixes x y :: int
  assumes "\<bar>x\<bar> \<le> n * 400000000" and "\<bar>y\<bar> \<le> 400000000" and "0 \<le> n" and "n \<le> 4"
  shows "int32_wrap (x + y) = x + y" and "\<bar>x + y\<bar> \<le> (n + 1) * 400000000"
proof -
  from assms show b: "\<bar>x + y\<bar> \<le> (n + 1) * 400000000"
    by (simp add: algebra_simps)
  from assms(3,4) have "(n + 1) * 400000000 \<le> 5 * (400000000::int)"
    by simp
  with b have "\<bar>x + y\<bar> \<le> 2000000000" by linarith
  then show "int32_wrap (x + y) = x + y"
    by (intro int32_wrap_id) linarith+
qed

lemma sum_loop_bounded:
  assumes "length h = 5" and "\<forall>x\<in>set h. \<bar>x\<bar> \<le> 400000000"
  shows "sum_loop h 0 0 = sum_list h"
proof -
  from assms(1) obtain a b c d e where h: "h = [a, b, c, d, e]" by (rule length5E)
  from assms(2) have b: "\<bar>a\<bar> \<le> 400000000" "\<bar>b\<bar> \<le> 400000000" "\<bar>c\<bar> \<le> 400000000"
      "\<bar>d\<bar> \<le> 400000000" "\<bar>e\<bar> \<le> 400000000"
    by (simp_all add: h)
  have unroll: "sum_loop h 0 0 =
      int32_wrap (int32_wrap (int32_wrap (int32_wrap (int32_wrap (0 + a) + b) + c) + d) + e)"
    by (simp add: h sum_loop.simps)
  have s1: "int32_wrap (0 + a) = 0 + a" "\<bar>0 + a\<bar> \<le> 1 * 400000000"
    using abs_bound_int32 [of 0 0 a] b(1) by simp_all
  have s2: "int32_wrap (0 + a + b) = 0 + a + b" "\<bar>0 + a + b\<bar> \<le> 2 * 400000000"
    using abs_bound_int32 [of "0 + a" 1 b] s1(2) b(2) by simp_all
  have s3: "int32_wrap (0 + a + b + c) = 0 + a + b + c" "\<bar>0 + a + b + c\<bar> \<le> 3 * 400000000"
    using abs_bound_int32 [of "0 + a + b" 2 c] s2(2) b(3) by simp_all
  have s4: "int32_wrap (0 + a + b + c + d) = 0 + a + b + c + d"
      "\<bar>0 + a + b + c + d\<bar> \<le> 4 * 400000000"
    using abs_bound_int32 [of "0 + a + b + c" 3 d] s3(2) b(4) by simp_all
  have s5: "int32_wrap (0 + a + b + c + d + e) = 0 + a + b + c + d + e"
    using abs_bound_int32 [of "0 + a + b + c + d" 4 e] s4(2) b(5) by simp_all
  show ?thesis
    by (simp only: unroll s1(1) s2(1) s3(1) s4(1) s5) (simp add: h)
qed

lemma drop_window_snoc:
  assumes "length w = 5"
  shows "drop (length (xs @ [x])) (w @ xs @ [x]) = tl (drop (length xs) (w @ xs)) @ [x]"
proof -
  have "drop (Suc (length xs)) ((w @ xs) @ [x]) = drop (Suc (length xs)) (w @ xs) @ [x]"
    using assms by simp
  also have "drop (Suc (length xs)) (w @ xs) = tl (drop (length xs) (w @ xs))"
    by (simp only: drop_Suc tl_drop)
  finally show ?thesis by simp
qed

lemma light_run_u1_snoc:
  "light_run_u1 s0 (xs @ [x]) = vTaskLight_u1_round x (snd (light_run_u1 s0 xs))"
  by (simp add: light_run_u1_def split_beta)

lemma vTaskLight_u1_round_fields:
  "lightHistory (snd (vTaskLight_u1_round raw s)) = (lightHistory s)[index s := raw]"
  "index (snd (vTaskLight_u1_round raw s)) = (index s + 1) mod 5"
  "lightLevel (snd (vTaskLight_u1_round raw s)) = raw"
  "fst (vTaskLight_u1_round raw s)
     = float_of_sum_div_5 (sum_loop ((lightHistory s)[index s := raw]) 0 0)"
  by (simp_all add: vTaskLight_u1_round_def Let_def)

lemma light_run_u1_ring:
  assumes "length (lightHistory s0) = 5" and "index s0 < 5"
  shows "length (lightHistory (snd (light_run_u1 s0 xs))) = 5 \<and>
         index (snd (light_run_u1 s0 xs)) < 5 \<and>
         ring_in_write_order (index (snd (light_run_u1 s0 xs)))
                             (lightHistory (snd (light_run_u1 s0 xs)))
           = drop (length xs) (ring_in_write_order (index s0) (lightHistory s0) @ xs)"
proof (induction xs rule: rev_induct)
  case Nil
  from assms show ?case by (simp add: light_run_u1_def)
next
  case (snoc x xs)
  let ?s = "snd (light_run_u1 s0 xs)"
  from snoc have len: "length (lightHistory ?s) = 5" and ix: "index ?s < 5"
    and ring: "ring_in_write_order (index ?s) (lightHistory ?s)
                 = drop (length xs) (ring_in_write_order (index s0) (lightHistory s0) @ xs)"
    by simp_all
  have w: "length (ring_in_write_order (index s0) (lightHistory s0)) = 5"
    using assms(1) by (simp add: ring_length)
  have "ring_in_write_order ((index ?s + 1) mod 5) ((lightHistory ?s)[index ?s := x])
          = tl (ring_in_write_order (index ?s) (lightHistory ?s)) @ [x]"
    using len ix by (rule ring_step)
  also have "\<dots> = drop (length (xs @ [x]))
                      (ring_in_write_order (index s0) (lightHistory s0) @ xs @ [x])"
    using drop_window_snoc [OF w, of xs x] by (simp only: ring)
  finally show ?case
    using len by (simp add: light_run_u1_snoc vTaskLight_u1_round_fields)
qed

lemma light_run_u2_snoc:
  "light_run_u2 s0 (xs @ [x]) = vTaskLight_u2_round x (light_run_u2 s0 xs)"
  by (simp add: light_run_u2_def)

lemma vTaskLight_u2_round_fields:
  "vTaskLight_lightHistory (vTaskLight_u2_round raw s)
     = (vTaskLight_lightHistory s)[vTaskLight_index s := raw]"
  "vTaskLight_index (vTaskLight_u2_round raw s) = (vTaskLight_index s + 1) mod 5"
  "light (vTaskLight_u2_round raw s) = raw"
  "average (vTaskLight_u2_round raw s)
     = float_of_sum_div_5 (sum_loop ((vTaskLight_lightHistory s)[vTaskLight_index s := raw]) 0 0)"
  by (simp_all add: vTaskLight_u2_round_def Let_def)

lemma light_run_u2_ring:
  assumes "length (vTaskLight_lightHistory s0) = 5" and "vTaskLight_index s0 < 5"
  shows "length (vTaskLight_lightHistory (light_run_u2 s0 xs)) = 5 \<and>
         vTaskLight_index (light_run_u2 s0 xs) < 5 \<and>
         ring_in_write_order (vTaskLight_index (light_run_u2 s0 xs))
                             (vTaskLight_lightHistory (light_run_u2 s0 xs))
           = drop (length xs)
               (ring_in_write_order (vTaskLight_index s0) (vTaskLight_lightHistory s0) @ xs)"
proof (induction xs rule: rev_induct)
  case Nil
  from assms show ?case by (simp add: light_run_u2_def)
next
  case (snoc x xs)
  let ?s = "light_run_u2 s0 xs"
  from snoc have len: "length (vTaskLight_lightHistory ?s) = 5" and ix: "vTaskLight_index ?s < 5"
    and ring: "ring_in_write_order (vTaskLight_index ?s) (vTaskLight_lightHistory ?s)
                 = drop (length xs)
                     (ring_in_write_order (vTaskLight_index s0) (vTaskLight_lightHistory s0) @ xs)"
    by simp_all
  have w: "length (ring_in_write_order (vTaskLight_index s0) (vTaskLight_lightHistory s0)) = 5"
    using assms(1) by (simp add: ring_length)
  have "ring_in_write_order ((vTaskLight_index ?s + 1) mod 5)
            ((vTaskLight_lightHistory ?s)[vTaskLight_index ?s := x])
          = tl (ring_in_write_order (vTaskLight_index ?s) (vTaskLight_lightHistory ?s)) @ [x]"
    using len ix by (rule ring_step)
  also have "\<dots> = drop (length (xs @ [x]))
        (ring_in_write_order (vTaskLight_index s0) (vTaskLight_lightHistory s0) @ xs @ [x])"
    using drop_window_snoc [OF w, of xs x] by (simp only: ring)
  finally show ?case
    using len by (simp add: light_run_u2_snoc vTaskLight_u2_round_fields)
qed

lemma sum_of_ring:
  assumes "length h = 5" and "ring_in_write_order i h = w" and "\<forall>x\<in>set w. \<bar>x\<bar> \<le> 400000000"
  shows "sum_loop h 0 0 = sum_list w"
proof -
  from assms(2,3) have "\<forall>x\<in>set h. \<bar>x\<bar> \<le> 400000000"
    using ring_set [of i h] by simp
  with assms(1) have "sum_loop h 0 0 = sum_list h" by (rule sum_loop_bounded)
  also have "\<dots> = sum_list w" using ring_sum [of i h] assms(2) by simp
  finally show ?thesis .
qed

lemma init_u1_wf: "length (lightHistory init_u1) = 5" "index init_u1 < 5"
  by (simp_all add: init_u1_def)

lemma init_u2_wf:
  "vTaskLight_lightHistory (init_u2 h0) = h0" "vTaskLight_index (init_u2 h0) < 5"
  by (simp_all add: init_u2_def)

lemma light_run_u1_last:
  assumes "xs \<noteq> []"
  shows "fst (light_run_u1 s0 xs)
           = float_of_sum_div_5 (sum_loop (lightHistory (snd (light_run_u1 s0 xs))) 0 0)"
proof -
  from assms obtain ys y where xs: "xs = ys @ [y]" by (cases xs rule: rev_cases) auto
  show ?thesis
    by (simp only: xs light_run_u1_snoc vTaskLight_u1_round_fields)
qed

lemma light_run_u2_last:
  assumes "xs \<noteq> []"
  shows "average (light_run_u2 s0 xs)
           = float_of_sum_div_5 (sum_loop (vTaskLight_lightHistory (light_run_u2 s0 xs)) 0 0)"
proof -
  from assms obtain ys y where xs: "xs = ys @ [y]" by (cases xs rule: rev_cases) auto
  show ?thesis
    by (simp only: xs light_run_u2_snoc vTaskLight_u2_round_fields)
qed

lemma sum_loop_after_write:
  assumes "length h = 5" and "\<forall>x\<in>set h. \<bar>x\<bar> \<le> 400000000" and "\<bar>raw\<bar> \<le> 400000000"
  shows "sum_loop (h[i := raw]) 0 0 = sum_list (h[i := raw])"
    and "\<forall>x\<in>set (h[i := raw]). \<bar>x\<bar> \<le> 400000000"
proof -
  show b: "\<forall>x\<in>set (h[i := raw]). \<bar>x\<bar> \<le> 400000000"
    using assms(2,3) set_update_subset_insert [of h i raw] by auto
  from assms(1) have "length (h[i := raw]) = 5" by simp
  then show "sum_loop (h[i := raw]) 0 0 = sum_list (h[i := raw])"
    using b by (rule sum_loop_bounded)
qed

lemma vTaskLight_u1_round_sma:
  "sma (snd (vTaskLight_u1_round raw s))
     = (if 5 < \<bar>float32_sub (fst (vTaskLight_u1_round raw s)) (sma s)\<bar>
        then fst (vTaskLight_u1_round raw s) else sma s)"
  "dataChanged (snd (vTaskLight_u1_round raw s))
     = (dataChanged s \<or> 5 < \<bar>float32_sub (fst (vTaskLight_u1_round raw s)) (sma s)\<bar>)"
  by (simp_all add: vTaskLight_u1_round_def Let_def)

lemma do_round_u1_wf:
  assumes "length (lightHistory s) = 5" and "index s < 5"
    and "\<forall>x\<in>set (lightHistory s). \<bar>x\<bar> \<le> 400000000"
    and "\<forall>x\<in>set (samples_u1 [r]). \<bar>x\<bar> \<le> 400000000"
  shows "length (lightHistory (do_round_u1 s r)) = 5 \<and> index (do_round_u1 s r) < 5 \<and>
         (\<forall>x\<in>set (lightHistory (do_round_u1 s r)). \<bar>x\<bar> \<le> 400000000)"
proof (cases r)
  case (ProducerRound raw)
  with assms(4) have raw: "\<bar>raw\<bar> \<le> 400000000" by simp
  from sum_loop_after_write(2) [OF assms(1,3) raw, of "index s"] assms(1) ProducerRound
  show ?thesis by (simp add: vTaskLight_u1_round_fields)
next
  case DisplayRound
  with assms(1-3) show ?thesis by (simp add: vTaskLCD_u1_round_def)
next
  case AlarmRound
  with assms(1-3) show ?thesis by simp
qed

lemma samples_u1_append: "samples_u1 (xs @ ys) = samples_u1 xs @ samples_u1 ys"
  by (induction xs rule: samples_u1.induct) simp_all

lemma run_u1_snoc: "run_u1 (sched @ [r]) = do_round_u1 (run_u1 sched) r"
  by (simp add: run_u1_def)

lemma run_u1_wf:
  assumes "\<forall>x\<in>set (samples_u1 sched). \<bar>x\<bar> \<le> 400000000"
  shows "length (lightHistory (run_u1 sched)) = 5 \<and> index (run_u1 sched) < 5 \<and>
         (\<forall>x\<in>set (lightHistory (run_u1 sched)). \<bar>x\<bar> \<le> 400000000)"
  using assms
proof (induction sched rule: rev_induct)
  case Nil
  show ?case by (simp add: run_u1_def init_u1_def)
next
  case (snoc r sched)
  from snoc.prems have a: "\<forall>x\<in>set (samples_u1 sched). \<bar>x\<bar> \<le> 400000000"
    and b: "\<forall>x\<in>set (samples_u1 [r]). \<bar>x\<bar> \<le> 400000000"
    by (simp_all add: samples_u1_append)
  from snoc.IH [OF a] have "length (lightHistory (run_u1 sched)) = 5"
    and "index (run_u1 sched) < 5"
    and "\<forall>x\<in>set (lightHistory (run_u1 sched)). \<bar>x\<bar> \<le> 400000000"
    by simp_all
  then show ?case
    unfolding run_u1_snoc using b by (rule do_round_u1_wf)
qed

text \<open>The relation between \<open>sma\<close> and the history that every round of Update 1 keeps.\<close>

lemma do_round_u1_sma:
  assumes "length (lightHistory s) = 5"
    and "\<forall>x\<in>set (lightHistory s). \<bar>x\<bar> \<le> 400000000"
    and "\<forall>x\<in>set (samples_u1 [r]). \<bar>x\<bar> \<le> 400000000"
    and "sma s = float_of_sum_div_5 (sum_list (lightHistory s)) \<or>
         \<bar>float32_sub (float_of_sum_div_5 (sum_list (lightHistory s))) (sma s)\<bar> \<le> 5"
  shows "sma (do_round_u1 s r) = float_of_sum_div_5 (sum_list (lightHistory (do_round_u1 s r))) \<or>
         \<bar>float32_sub (float_of_sum_div_5 (sum_list (lightHistory (do_round_u1 s r))))
            (sma (do_round_u1 s r))\<bar> \<le> 5"
proof (cases r)
  case (ProducerRound raw)
  with assms(3) have raw: "\<bar>raw\<bar> \<le> 400000000" by simp
  let ?h = "(lightHistory s)[index s := raw]"
  have sm: "sum_loop ?h 0 0 = sum_list ?h"
    using assms(1,2) raw by (rule sum_loop_after_write(1))
  have n: "fst (vTaskLight_u1_round raw s) = float_of_sum_div_5 (sum_list ?h)"
    by (simp add: vTaskLight_u1_round_fields sm)
  show ?thesis
    by (simp add: ProducerRound vTaskLight_u1_round_sma vTaskLight_u1_round_fields(1) n)
next
  case DisplayRound
  with assms(4) show ?thesis by (simp add: vTaskLCD_u1_round_def)
next
  case AlarmRound
  with assms(4) show ?thesis by simp
qed

lemma run_u1_sma:
  assumes "\<forall>x\<in>set (samples_u1 sched). \<bar>x\<bar> \<le> 400000000"
  shows "sma (run_u1 sched) = float_of_sum_div_5 (sum_list (lightHistory (run_u1 sched))) \<or>
         \<bar>float32_sub (float_of_sum_div_5 (sum_list (lightHistory (run_u1 sched))))
            (sma (run_u1 sched))\<bar> \<le> 5"
  using assms
proof (induction sched rule: rev_induct)
  case Nil
  show ?case by (simp add: run_u1_def init_u1_def float_of_sum_div_5_zero)
next
  case (snoc r sched)
  from snoc.prems have a: "\<forall>x\<in>set (samples_u1 sched). \<bar>x\<bar> \<le> 400000000"
    and b: "\<forall>x\<in>set (samples_u1 [r]). \<bar>x\<bar> \<le> 400000000"
    by (simp_all add: samples_u1_append)
  from run_u1_wf [OF a] have "length (lightHistory (run_u1 sched)) = 5"
    and "\<forall>x\<in>set (lightHistory (run_u1 sched)). \<bar>x\<bar> \<le> 400000000"
    by simp_all
  then show ?case
    unfolding run_u1_snoc using b snoc.IH [OF a] by (rule do_round_u1_sma)
qed

lemma sma_near_mean:
  assumes "s = float_of_sum_div_5 n \<or> \<bar>float32_sub (float_of_sum_div_5 n) s\<bar> \<le> 5"
  shows "\<bar>s - real_of_int n / 5\<bar> \<le> 5 + 1 / 2 ^ 22 + \<bar>real_of_int n / 5\<bar> / 2 ^ 23"
proof -
  let ?f = "float_of_sum_div_5 n"
  let ?m = "real_of_int n / 5"
  have tol: "\<bar>?f - ?m\<bar> \<le> \<bar>?m\<bar> / 2 ^ 23" by (rule float_of_sum_div_5_tolerance)
  have pos: "0 \<le> \<bar>?m\<bar> / 2 ^ 23" by simp
  from assms show ?thesis
  proof
    assume "s = ?f"
    with tol show ?thesis by simp
  next
    assume le: "\<bar>float32_sub ?f s\<bar> \<le> 5"
    have "\<bar>?f - s\<bar> \<le> 5 + 1 / 2 ^ 22"
    proof (rule ccontr)
      assume "\<not> \<bar>?f - s\<bar> \<le> 5 + 1 / 2 ^ 22"
      then have "5 + 1 / 2 ^ 22 < \<bar>?f - s\<bar>" by simp
      then have "5 < \<bar>float32_sub ?f s\<bar>" by (rule float32_sub_gt_5_from_exact)
      with le show False by simp
    qed
    with tol show ?thesis by linarith
  qed
qed

text \<open>
  The mean of 10, 10, 10, 10 and 50 is a \<open>float\<close>.
\<close>

lemma float_of_90: "float_of_sum_div_5 90 = 18"
  by (simp add: float_eval)

text \<open>
  Claim C1. After \<open>k \<ge> 5\<close> rounds of the producer the ring, read in write order, is the
  last five samples, and the average computed in the \<open>k\<close>-th round (\<open>newSMA\<close> in Update 1,
  \<open>average\<close> in Update 2) is the \<open>float\<close> that \<open>sum / 5.0\<close> gives for their sum; it
  differs from their arithmetic mean by at most the \<open>2\<^sup>2\<^sup>3\<close>-th part of the mean. Update 2
  starts from any contents \<open>h0\<close> of its uninitialised array. Samples are bounded so that the
  32-bit sum cannot overflow; the ADC of the board delivers values below 4096.
\<close>

theorem history_holds_last_five_and_mean:
  assumes k: "5 \<le> length samples"
    and bound: "\<forall>x\<in>set samples. \<bar>x\<bar> \<le> 400000000"
    and h0: "length h0 = 5"
  shows "ring_in_write_order (index (snd (light_run_u1 init_u1 samples)))
                             (lightHistory (snd (light_run_u1 init_u1 samples)))
           = drop (length samples - 5) samples
       \<and> fst (light_run_u1 init_u1 samples)
           = float_of_sum_div_5 (sum_list (drop (length samples - 5) samples))
       \<and> \<bar>fst (light_run_u1 init_u1 samples)
            - real_of_int (sum_list (drop (length samples - 5) samples)) / 5\<bar>
           \<le> \<bar>real_of_int (sum_list (drop (length samples - 5) samples)) / 5\<bar> / 2 ^ 23
       \<and> ring_in_write_order (vTaskLight_index (light_run_u2 (init_u2 h0) samples))
                             (vTaskLight_lightHistory (light_run_u2 (init_u2 h0) samples))
           = drop (length samples - 5) samples
       \<and> average (light_run_u2 (init_u2 h0) samples)
           = float_of_sum_div_5 (sum_list (drop (length samples - 5) samples))
       \<and> \<bar>average (light_run_u2 (init_u2 h0) samples)
            - real_of_int (sum_list (drop (length samples - 5) samples)) / 5\<bar>
           \<le> \<bar>real_of_int (sum_list (drop (length samples - 5) samples)) / 5\<bar> / 2 ^ 23"
proof -
  let ?w = "drop (length samples - 5) samples"
  from k have ne: "samples \<noteq> []" by auto
  have wb: "\<forall>x\<in>set ?w. \<bar>x\<bar> \<le> 400000000"
    using bound by (meson in_set_dropD)
  let ?s1 = "snd (light_run_u1 init_u1 samples)"
  have inv1: "length (lightHistory ?s1) = 5 \<and> index ?s1 < 5 \<and>
      ring_in_write_order (index ?s1) (lightHistory ?s1)
        = drop (length samples)
            (ring_in_write_order (index init_u1) (lightHistory init_u1) @ samples)"
    by (rule light_run_u1_ring) (rule init_u1_wf)+
  have ring1: "ring_in_write_order (index ?s1) (lightHistory ?s1) = ?w"
    using inv1 k by (simp add: ring_length init_u1_wf)
  have avg1: "fst (light_run_u1 init_u1 samples) = float_of_sum_div_5 (sum_list ?w)"
    using light_run_u1_last [OF ne, of init_u1] sum_of_ring [OF _ ring1 wb] inv1 by simp
  let ?s2 = "light_run_u2 (init_u2 h0) samples"
  have inv2: "length (vTaskLight_lightHistory ?s2) = 5 \<and> vTaskLight_index ?s2 < 5 \<and>
      ring_in_write_order (vTaskLight_index ?s2) (vTaskLight_lightHistory ?s2)
        = drop (length samples)
            (ring_in_write_order (vTaskLight_index (init_u2 h0))
               (vTaskLight_lightHistory (init_u2 h0)) @ samples)"
    by (rule light_run_u2_ring) (simp_all add: init_u2_wf h0)
  have ring2: "ring_in_write_order (vTaskLight_index ?s2) (vTaskLight_lightHistory ?s2) = ?w"
    using inv2 k by (simp add: ring_length init_u2_wf h0)
  have avg2: "average ?s2 = float_of_sum_div_5 (sum_list ?w)"
    using light_run_u2_last [OF ne, of "init_u2 h0"] sum_of_ring [OF _ ring2 wb] inv2 by simp
  have tol: "\<bar>float_of_sum_div_5 (sum_list ?w) - real_of_int (sum_list ?w) / 5\<bar>
               \<le> \<bar>real_of_int (sum_list ?w) / 5\<bar> / 2 ^ 23"
    by (rule float_of_sum_div_5_tolerance)
  from ring1 avg1 ring2 avg2 tol show ?thesis by (simp only: simp_thms)
qed

theorem history_holds_last_five_and_mean_witness:
  "5 \<le> length [10, 10, 10, 10, 10, 50 :: int] \<and>
   list_all (\<lambda>x. \<bar>x\<bar> \<le> 400000000) [10, 10, 10, 10, 10, 50 :: int] \<and>
   length [7, -3, 99, 0, 12 :: int] = 5 \<and>
   ring_in_write_order (index (snd (light_run_u1 init_u1 [10, 10, 10, 10, 10, 50])))
                       (lightHistory (snd (light_run_u1 init_u1 [10, 10, 10, 10, 10, 50])))
     = [10, 10, 10, 10, 50] \<and>
   fst (light_run_u1 init_u1 [10, 10, 10, 10, 10, 50]) = 18 \<and>
   ring_in_write_order
       (vTaskLight_index (light_run_u2 (init_u2 [7, -3, 99, 0, 12]) [10, 10, 10, 10, 10, 50]))
       (vTaskLight_lightHistory
          (light_run_u2 (init_u2 [7, -3, 99, 0, 12]) [10, 10, 10, 10, 10, 50]))
     = [10, 10, 10, 10, 50] \<and>
   average (light_run_u2 (init_u2 [7, -3, 99, 0, 12]) [10, 10, 10, 10, 10, 50]) = 18"
  using history_holds_last_five_and_mean [of "[10, 10, 10, 10, 10, 50]" "[7, -3, 99, 0, 12]"]
  by (simp add: float_of_90)

text \<open>
  Claim C2, as stated: after every round of the producer the stored average is the mean of
  the history. In Update 1 the first round with the sample 10 leaves \<open>sma\<close> at 0 while
  the history holds 10, 0, 0, 0, 0, whose mean is 2.
\<close>

theorem sma_equals_mean_counterexample:
  "sma (snd (vTaskLight_u1_round 10 init_u1))
     \<noteq> real_of_int (sum_list (lightHistory (snd (vTaskLight_u1_round 10 init_u1)))) / 5"
proof -
  have sm: "sum_loop [10, 0, 0, 0, 0] 0 0 = sum_list [10, 0, 0, 0, 0]"
    by (rule sum_loop_bounded) simp_all
  have new: "fst (vTaskLight_u1_round 10 init_u1) = 2"
    by (simp add: vTaskLight_u1_round_fields init_u1_def sm float_eval)
  have "float32_sub 2 0 = 2"
    by (simp add: float_eval)
  then have "sma (snd (vTaskLight_u1_round 10 init_u1)) = 0"
    by (simp add: vTaskLight_u1_round_sma new) (simp add: init_u1_def)
  moreover have "lightHistory (snd (vTaskLight_u1_round 10 init_u1)) = [10, 0, 0, 0, 0]"
    by (simp add: vTaskLight_u1_round_fields init_u1_def)
  ultimately show ?thesis by simp
qed

text \<open>
  In Update 2 the array holds leftovers until the fifth round, and their sum may wrap
  around: with the leftovers 0, \<open>2\<^sup>3\<^sup>1 - 1\<close>, \<open>2\<^sup>3\<^sup>1 - 1\<close>, 0, 0 the first round, on the
  sample 0, adds up to \<open>-2\<close> and stores the \<open>float\<close> of \<open>-2/5\<close>, while the mean of the five
  slots is \<open>4294967294/5\<close>.
\<close>

lemma vTaskLight_u2_leftovers:
  "average (vTaskLight_u2_round 0 (init_u2 [0, 2147483647, 2147483647, 0, 0]))
     = - (13421773 / 33554432) \<and>
   real_of_int (sum_list (vTaskLight_lightHistory
      (vTaskLight_u2_round 0 (init_u2 [0, 2147483647, 2147483647, 0, 0])))) / 5
     = 4294967294 / 5"
proof -
  let ?h = "[0, 2147483647, 2147483647, 0, 0 :: int]"
  have w1: "int32_wrap 2147483647 = 2147483647" by (simp add: int32_wrap_def)
  have w2: "int32_wrap 4294967294 = - 2" by (simp add: int32_wrap_def)
  have w3: "int32_wrap (- 2) = - 2" by (simp add: int32_wrap_def)
  have w0: "int32_wrap 0 = 0" by (simp add: int32_wrap_def)
  have unroll: "sum_loop [a, b, c, d, e] 0 0 =
      int32_wrap (int32_wrap (int32_wrap (int32_wrap (int32_wrap (0 + a) + b) + c) + d) + e)"
    for a b c d e
    by (simp add: sum_loop.simps)
  have s0: "sum_loop ?h 0 0 = - 2"
    by (simp only: unroll add_0 w1 w0 w2 w3) (simp add: w2 w3)
  have f: "float_of_sum_div_5 (- 2) = - (13421773 / 33554432)" by (simp add: float_eval)
  show ?thesis
    by (simp add: vTaskLight_u2_round_def init_u2_def Let_def s0 f)
qed

text \<open>
  Two rounds of Update 1, on the samples 26 and 25: the first stores the \<open>float\<close> of 5.2,
  the second computes the \<open>float\<close> of 10.2, finds the difference 5 and stores nothing.
\<close>

lemma run_u1_26_25:
  "run_u1 [ProducerRound 26, ProducerRound 25]
     = \<lparr> lightLevel = 25, lightHistory = [26, 25, 0, 0, 0], sma = 5452595 / 1048576,
         index = 2, dataChanged = True \<rparr>"
proof -
  have sm1: "sum_loop [26, 0, 0, 0, 0] 0 0 = 26"
    using sum_loop_bounded [of "[26, 0, 0, 0, 0]"] by simp
  have sm2: "sum_loop [26, 25, 0, 0, 0] 0 0 = 51"
    using sum_loop_bounded [of "[26, 25, 0, 0, 0]"] by simp
  have f1: "float_of_sum_div_5 26 = 5452595 / 1048576" by (simp add: float_eval)
  have f2: "float_of_sum_div_5 51 = 10695475 / 1048576" by (simp add: float_eval)
  have d1: "float32_sub (5452595 / 1048576) 0 = 5452595 / 1048576" by (simp add: float_eval)
  have d2: "float32_sub (10695475 / 1048576) (5452595 / 1048576) = 5" by (simp add: float_eval)
  have s1: "run_u1 [ProducerRound 26]
     = \<lparr> lightLevel = 26, lightHistory = [26, 0, 0, 0, 0], sma = 5452595 / 1048576,
         index = 1, dataChanged = True \<rparr>"
    by (simp add: run_u1_def init_u1_def vTaskLight_u1_round_def Let_def sm1 f1 d1)
  have "run_u1 ([ProducerRound 26] @ [ProducerRound 25])
          = do_round_u1 (run_u1 [ProducerRound 26]) (ProducerRound 25)"
    by (rule run_u1_snoc)
  then show ?thesis
    by (simp add: s1 vTaskLight_u1_round_def Let_def sm2 f2 d2)
qed

text \<open>
  Claim C2, amended. Update 1 rewrites \<open>sma\<close> only when the \<open>float\<close> difference
  \<open>newSMA - sma\<close> exceeds 5 in magnitude. After every schedule of rounds from the initial
  state, \<open>sma\<close> is the \<open>float\<close> mean of the five history slots or the \<open>float\<close> difference
  of the two is at most 5; so \<open>sma\<close> lies within \<open>5 + 2\<^sup>-\<^sup>2\<^sup>2\<close> plus the \<open>2\<^sup>2\<^sup>3\<close>-th part of
  the mean from the arithmetic mean of the slots. After a round of the producer in which the
  difference exceeded 5, \<open>sma\<close> is the \<open>float\<close> mean of the slots. In Update 2, whose
  array starts with any contents \<open>h0\<close>, \<open>average\<close> is from the fifth round on the
  \<open>float\<close> mean of the five slots, within the \<open>2\<^sup>2\<^sup>3\<close>-th part of the mean from their
  arithmetic mean. Samples are bounded so that the 32-bit sum cannot overflow.
\<close>

theorem average_tracks_mean_of_history:
  assumes "\<forall>x\<in>set (samples_u1 sched). \<bar>x\<bar> \<le> 400000000"
    and "\<forall>x\<in>set samples. \<bar>x\<bar> \<le> 400000000"
    and "length h0 = 5"
    and "\<bar>raw\<bar> \<le> 400000000"
  shows "(sma (run_u1 sched) = float_of_sum_div_5 (sum_list (lightHistory (run_u1 sched))) \<or>
          \<bar>float32_sub (float_of_sum_div_5 (sum_list (lightHistory (run_u1 sched))))
             (sma (run_u1 sched))\<bar> \<le> 5) \<and>
         \<bar>sma (run_u1 sched) - real_of_int (sum_list (lightHistory (run_u1 sched))) / 5\<bar>
           \<le> 5 + 1 / 2 ^ 22 + \<bar>real_of_int (sum_list (lightHistory (run_u1 sched))) / 5\<bar> / 2 ^ 23 \<and>
         (5 < \<bar>float32_sub (fst (vTaskLight_u1_round raw (run_u1 sched))) (sma (run_u1 sched))\<bar> \<longrightarrow>
            sma (snd (vTaskLight_u1_round raw (run_u1 sched)))
              = float_of_sum_div_5
                  (sum_list (lightHistory (snd (vTaskLight_u1_round raw (run_u1 sched)))))) \<and>
         (5 \<le> length samples \<longrightarrow>
            average (light_run_u2 (init_u2 h0) samples)
              = float_of_sum_div_5
                  (sum_list (vTaskLight_lightHistory (light_run_u2 (init_u2 h0) samples))) \<and>
            \<bar>average (light_run_u2 (init_u2 h0) samples)
               - real_of_int
                   (sum_list (vTaskLight_lightHistory (light_run_u2 (init_u2 h0) samples))) / 5\<bar>
              \<le> \<bar>real_of_int
                    (sum_list (vTaskLight_lightHistory (light_run_u2 (init_u2 h0) samples))) / 5\<bar>
                  / 2 ^ 23)"
proof (intro conjI impI)
  show inv: "sma (run_u1 sched) = float_of_sum_div_5 (sum_list (lightHistory (run_u1 sched))) \<or>
          \<bar>float32_sub (float_of_sum_div_5 (sum_list (lightHistory (run_u1 sched))))
             (sma (run_u1 sched))\<bar> \<le> 5"
    using assms(1) by (rule run_u1_sma)
  then show "\<bar>sma (run_u1 sched) - real_of_int (sum_list (lightHistory (run_u1 sched))) / 5\<bar>
           \<le> 5 + 1 / 2 ^ 22 + \<bar>real_of_int (sum_list (lightHistory (run_u1 sched))) / 5\<bar> / 2 ^ 23"
    by (rule sma_near_mean)
next
  let ?s = "run_u1 sched"
  let ?h = "(lightHistory ?s)[index ?s := raw]"
  assume exceeded: "5 < \<bar>float32_sub (fst (vTaskLight_u1_round raw ?s)) (sma ?s)\<bar>"
  from run_u1_wf [OF assms(1)] have len: "length (lightHistory ?s) = 5"
    and b: "\<forall>x\<in>set (lightHistory ?s). \<bar>x\<bar> \<le> 400000000"
    by simp_all
  have sm: "sum_loop ?h 0 0 = sum_list ?h"
    using len b assms(4) by (rule sum_loop_after_write(1))
  have "sma (snd (vTaskLight_u1_round raw ?s)) = fst (vTaskLight_u1_round raw ?s)"
    using exceeded by (simp add: vTaskLight_u1_round_sma)
  also have "\<dots> = float_of_sum_div_5 (sum_list ?h)"
    by (simp add: vTaskLight_u1_round_fields sm)
  also have "?h = lightHistory (snd (vTaskLight_u1_round raw ?s))"
    by (simp add: vTaskLight_u1_round_fields)
  finally show "sma (snd (vTaskLight_u1_round raw ?s))
      = float_of_sum_div_5 (sum_list (lightHistory (snd (vTaskLight_u1_round raw ?s))))" .
next
  assume k: "5 \<le> length samples"
  let ?s2 = "light_run_u2 (init_u2 h0) samples"
  let ?w = "drop (length samples - 5) samples"
  from k have ne: "samples \<noteq> []" by auto
  have wb: "\<forall>x\<in>set ?w. \<bar>x\<bar> \<le> 400000000"
    using assms(2) by (meson in_set_dropD)
  have inv2: "length (vTaskLight_lightHistory ?s2) = 5 \<and> vTaskLight_index ?s2 < 5 \<and>
      ring_in_write_order (vTaskLight_index ?s2) (vTaskLight_lightHistory ?s2)
        = drop (length samples)
            (ring_in_write_order (vTaskLight_index (init_u2 h0))
               (vTaskLight_lightHistory (init_u2 h0)) @ samples)"
    by (rule light_run_u2_ring) (simp_all add: init_u2_wf assms(3))
  have ring2: "ring_in_write_order (vTaskLight_index ?s2) (vTaskLight_lightHistory ?s2) = ?w"
    using inv2 k by (simp add: ring_length init_u2_wf assms(3))
  have "sum_loop (vTaskLight_lightHistory ?s2) 0 0 = sum_list ?w"
    using inv2 ring2 wb by (intro sum_of_ring) simp_all
  moreover have "sum_list ?w = sum_list (vTaskLight_lightHistory ?s2)"
    using ring_sum [of "vTaskLight_index ?s2" "vTaskLight_lightHistory ?s2"] ring2 by simp
  ultimately show avg: "average ?s2 = float_of_sum_div_5 (sum_list (vTaskLight_lightHistory ?s2))"
    using light_run_u2_last [OF ne, of "init_u2 h0"] by simp
  show "\<bar>average ?s2 - real_of_int (sum_list (vTaskLight_lightHistory ?s2)) / 5\<bar>
          \<le> \<bar>real_of_int (sum_list (vTaskLight_lightHistory ?s2)) / 5\<bar> / 2 ^ 23"
    unfolding avg by (rule float_of_sum_div_5_tolerance)
qed

theorem average_tracks_mean_of_history_witness:
  "list_all (\<lambda>x. \<bar>x\<bar> \<le> 400000000) (samples_u1 [ProducerRound 26, ProducerRound 25]) \<and>
   list_all (\<lambda>x. \<bar>x\<bar> \<le> 400000000) [10, 10, 10, 10, 10, 50 :: int] \<and>
   length [0, 2147483647, 2147483647, 0, 0 :: int] = 5 \<and>
   \<bar>100 :: int\<bar> \<le> 400000000 \<and>
   5 \<le> length [10, 10, 10, 10, 10, 50 :: int] \<and>
   sma (run_u1 [ProducerRound 26, ProducerRound 25]) = 5452595 / 1048576 \<and>
   lightHistory (run_u1 [ProducerRound 26, ProducerRound 25]) = [26, 25, 0, 0, 0] \<and>
   \<bar>sma (run_u1 [ProducerRound 26, ProducerRound 25]) - 51 / 5\<bar>
     \<le> 5 + 1 / 2 ^ 22 + \<bar>51 / 5\<bar> / 2 ^ 23 \<and>
   5 < \<bar>float32_sub
          (fst (vTaskLight_u1_round 100 (run_u1 [ProducerRound 26, ProducerRound 25])))
          (sma (run_u1 [ProducerRound 26, ProducerRound 25]))\<bar> \<and>
   sma (snd (vTaskLight_u1_round 100 (run_u1 [ProducerRound 26, ProducerRound 25])))
     = 7916749 / 262144 \<and>
   lightHistory (snd (vTaskLight_u1_round 100 (run_u1 [ProducerRound 26, ProducerRound 25])))
     = [26, 25, 100, 0, 0] \<and>
   average (light_run_u2 (init_u2 [0, 2147483647, 2147483647, 0, 0]) [10, 10, 10, 10, 10, 50])
     = float_of_sum_div_5 (sum_list (vTaskLight_lightHistory
         (light_run_u2 (init_u2 [0, 2147483647, 2147483647, 0, 0]) [10, 10, 10, 10, 10, 50])))"
proof -
  have h: "\<forall>x\<in>set (samples_u1 [ProducerRound 26, ProducerRound 25]). \<bar>x\<bar> \<le> 400000000"
      "\<forall>x\<in>set [10, 10, 10, 10, 10, 50 :: int]. \<bar>x\<bar> \<le> 400000000"
      "length [0, 2147483647, 2147483647, 0, 0 :: int] = 5"
      "\<bar>100 :: int\<bar> \<le> 400000000"
    by simp_all
  have sm: "sum_loop [26, 25, 100, 0, 0] 0 0 = 151"
    using sum_loop_bounded [of "[26, 25, 100, 0, 0]"] by simp
  have f: "float_of_sum_div_5 151 = 7916749 / 262144" by (simp add: float_eval)
  have d: "float32_sub (7916749 / 262144) (5452595 / 1048576) = 25" by (simp add: float_eval)
  have new: "fst (vTaskLight_u1_round 100 (run_u1 [ProducerRound 26, ProducerRound 25]))
               = 7916749 / 262144"
    by (simp add: run_u1_26_25 vTaskLight_u1_round_fields sm f)
  have hist: "lightHistory (snd (vTaskLight_u1_round 100
                (run_u1 [ProducerRound 26, ProducerRound 25]))) = [26, 25, 100, 0, 0]"
    by (simp add: run_u1_26_25 vTaskLight_u1_round_fields)
  have s26: "sma (run_u1 [ProducerRound 26, ProducerRound 25]) = 5452595 / 1048576"
    by (simp add: run_u1_26_25)
  have h26: "lightHistory (run_u1 [ProducerRound 26, ProducerRound 25]) = [26, 25, 0, 0, 0]"
    by (simp add: run_u1_26_25)
  from average_tracks_mean_of_history [OF h] show ?thesis
    by (simp add: new hist s26 h26 d f)
qed

section \<open>Part II: the dirty flag\<close>

text \<open>
  Five rounds of the producer of Update 1, on the samples 27, 0, 0, 0, 0, and a round of the
  display: \<open>sma\<close> is the \<open>float\<close> of 5.4, the cursor is back at slot 0, the flag is down.
\<close>

lemma run_u1_27_then_zeros:
  "run_u1 [ProducerRound 27, ProducerRound 0, ProducerRound 0, ProducerRound 0, ProducerRound 0,
           DisplayRound]
     = \<lparr> lightLevel = 0, lightHistory = [27, 0, 0, 0, 0], sma = 11324621 / 2097152,
         index = 0, dataChanged = False \<rparr>"
proof -
  have sm: "sum_loop [27, 0, 0, 0, 0] 0 0 = 27"
    using sum_loop_bounded [of "[27, 0, 0, 0, 0]"] by simp
  have f: "float_of_sum_div_5 27 = 11324621 / 2097152" by (simp add: float_eval)
  have d0: "float32_sub (11324621 / 2097152) 0 = 11324621 / 2097152" by (simp add: float_eval)
  have d1: "float32_sub (11324621 / 2097152) (11324621 / 2097152) = 0" by (simp add: float_eval)
  show ?thesis
    by (simp add: run_u1_def init_u1_def vTaskLight_u1_round_def vTaskLCD_u1_round_def
        Let_def sm f d0 d1)
qed

text \<open>
  Claim C3, as stated: the producer raises the flag exactly when the new average differs
  from the stored one by more than 5. The test \<open>abs(newSMA - sma) > 5\<close> is made on the
  \<open>float\<close> difference, which is rounded. After the rounds above, the sample 2 gives
  \<open>newSMA\<close> the \<open>float\<close> of 0.4. It differs from \<open>sma\<close>, the \<open>float\<close> of 5.4, by
  \<open>167772163 / 33554432\<close>, which is more than 5, but the \<open>float\<close> nearest to that is 5,
  and the flag stays down.
\<close>

theorem dataChanged_iff_difference_exceeds_5_counterexample:
  "\<not> dataChanged (run_u1 [ProducerRound 27, ProducerRound 0, ProducerRound 0, ProducerRound 0,
                          ProducerRound 0, DisplayRound]) \<and>
   5 < \<bar>fst (vTaskLight_u1_round 2
              (run_u1 [ProducerRound 27, ProducerRound 0, ProducerRound 0, ProducerRound 0,
                       ProducerRound 0, DisplayRound]))
        - sma (run_u1 [ProducerRound 27, ProducerRound 0, ProducerRound 0, ProducerRound 0,
                       ProducerRound 0, DisplayRound])\<bar> \<and>
   \<not> dataChanged (snd (vTaskLight_u1_round 2
                     (run_u1 [ProducerRound 27, ProducerRound 0, ProducerRound 0, ProducerRound 0,
                              ProducerRound 0, DisplayRound])))"
proof -
  have sm: "sum_loop [2, 0, 0, 0, 0] 0 0 = 2"
    using sum_loop_bounded [of "[2, 0, 0, 0, 0]"] by simp
  have f: "float_of_sum_div_5 2 = 13421773 / 33554432" by (simp add: float_eval)
  have d: "float32_sub (13421773 / 33554432) (11324621 / 2097152) = - 5" by (simp add: float_eval)
  show ?thesis
    by (simp add: run_u1_27_then_zeros vTaskLight_u1_round_def Let_def sm f d)
qed

text \<open>
  A round of the producer and one of the display, on the samples 28 and 26: \<open>sma\<close> is the
  \<open>float\<close> of 5.6 and of 5.2, and the flag is down.
\<close>

lemma run_u1_28_display:
  "run_u1 [ProducerRound 28, DisplayRound]
     = \<lparr> lightLevel = 28, lightHistory = [28, 0, 0, 0, 0], sma = 11744051 / 2097152,
         index = 1, dataChanged = False \<rparr>"
proof -
  have sm: "sum_loop [28, 0, 0, 0, 0] 0 0 = 28"
    using sum_loop_bounded [of "[28, 0, 0, 0, 0]"] by simp
  have f: "float_of_sum_div_5 28 = 11744051 / 2097152" by (simp add: float_eval)
  have d0: "float32_sub (11744051 / 2097152) 0 = 11744051 / 2097152" by (simp add: float_eval)
  show ?thesis
    by (simp add: run_u1_def init_u1_def vTaskLight_u1_round_def vTaskLCD_u1_round_def
        Let_def sm f d0)
qed

lemma run_u1_26_display:
  "run_u1 [ProducerRound 26, DisplayRound]
     = \<lparr> lightLevel = 26, lightHistory = [26, 0, 0, 0, 0], sma = 5452595 / 1048576,
         index = 1, dataChanged = False \<rparr>"
proof -
  have sm: "sum_loop [26, 0, 0, 0, 0] 0 0 = 26"
    using sum_loop_bounded [of "[26, 0, 0, 0, 0]"] by simp
  have f: "float_of_sum_div_5 26 = 5452595 / 1048576" by (simp add: float_eval)
  have d0: "float32_sub (5452595 / 1048576) 0 = 5452595 / 1048576" by (simp add: float_eval)
  show ?thesis
    by (simp add: run_u1_def init_u1_def vTaskLight_u1_round_def vTaskLCD_u1_round_def
        Let_def sm f d0)
qed

text \<open>
  Claim C3, amended. In a round of the producer of Update 1, after any schedule of rounds
  from the initial state, \<open>newSMA\<close> is the \<open>float\<close> mean of the updated history, and the
  flag after the round is the flag before or the test \<open>5 < \<bar>newSMA - sma\<bar>\<close> on the
  \<open>float\<close> difference: the producer raises the flag exactly when the rounded difference
  exceeds 5, and never lowers it. Of the difference of the two values as numbers: above
  \<open>5 + 2\<^sup>-\<^sup>2\<^sup>2\<close> the flag is up after the round, and up to 5 the round leaves the flag as
  it was. A round of the display task sends something to the LCD exactly when the flag is
  up, and the flag is down when the round ends. Samples are bounded so that the 32-bit sum
  cannot overflow.
\<close>

theorem dataChanged_set_on_threshold_cleared_on_render:
  assumes "\<forall>x\<in>set (samples_u1 sched). \<bar>x\<bar> \<le> 400000000" and "\<bar>raw\<bar> \<le> 400000000"
  shows "(let s = run_u1 sched;
              h = (lightHistory s)[index s := raw];
              newAverage = float_of_sum_div_5 (sum_list h);
              s' = snd (vTaskLight_u1_round raw s)
          in lightHistory s' = h \<and>
             fst (vTaskLight_u1_round raw s) = newAverage \<and>
             dataChanged s' = (dataChanged s \<or> 5 < \<bar>float32_sub newAverage (sma s)\<bar>) \<and>
             (5 + 1 / 2 ^ 22 < \<bar>newAverage - sma s\<bar> \<longrightarrow> dataChanged s') \<and>
             (\<bar>newAverage - sma s\<bar> \<le> 5 \<longrightarrow> dataChanged s' = dataChanged s)) \<and>
         dataChanged (snd (vTaskLCD_u1_round t)) = False \<and>
         (filter is_lcd_event (fst (vTaskLCD_u1_round t)) \<noteq> []) = dataChanged t"
proof -
  let ?s = "run_u1 sched"
  let ?h = "(lightHistory ?s)[index ?s := raw]"
  let ?n = "float_of_sum_div_5 (sum_list ?h)"
  let ?s' = "snd (vTaskLight_u1_round raw ?s)"
  from run_u1_wf [OF assms(1)] have len: "length (lightHistory ?s) = 5"
    and b: "\<forall>x\<in>set (lightHistory ?s). \<bar>x\<bar> \<le> 400000000"
    by simp_all
  have sm: "sum_loop ?h 0 0 = sum_list ?h"
    using len b assms(2) by (rule sum_loop_after_write(1))
  have h: "lightHistory ?s' = ?h" by (simp add: vTaskLight_u1_round_fields)
  have n: "fst (vTaskLight_u1_round raw ?s) = ?n"
    by (simp add: vTaskLight_u1_round_fields sm)
  have flag: "dataChanged ?s' = (dataChanged ?s \<or> 5 < \<bar>float32_sub ?n (sma ?s)\<bar>)"
    by (simp add: vTaskLight_u1_round_sma n)
  have above: "5 + 1 / 2 ^ 22 < \<bar>?n - sma ?s\<bar> \<longrightarrow> dataChanged ?s'"
  proof
    assume "5 + 1 / 2 ^ 22 < \<bar>?n - sma ?s\<bar>"
    then have "5 < \<bar>float32_sub ?n (sma ?s)\<bar>" by (rule float32_sub_gt_5_from_exact)
    with flag show "dataChanged ?s'" by simp
  qed
  have below: "\<bar>?n - sma ?s\<bar> \<le> 5 \<longrightarrow> dataChanged ?s' = dataChanged ?s"
  proof
    assume le: "\<bar>?n - sma ?s\<bar> \<le> 5"
    have "\<not> 5 < \<bar>float32_sub ?n (sma ?s)\<bar>"
    proof
      assume "5 < \<bar>float32_sub ?n (sma ?s)\<bar>"
      then have "5 < \<bar>?n - sma ?s\<bar>" by (rule float32_sub_gt_5_exact)
      with le show False by simp
    qed
    with flag show "dataChanged ?s' = dataChanged ?s" by simp
  qed
  have lcd: "dataChanged (snd (vTaskLCD_u1_round t)) = False"
      "(filter is_lcd_event (fst (vTaskLCD_u1_round t)) \<noteq> []) = dataChanged t"
    by (simp_all add: vTaskLCD_u1_round_def)
  have producer: "lightHistory ?s' = ?h \<and> fst (vTaskLight_u1_round raw ?s) = ?n \<and>
      dataChanged ?s' = (dataChanged ?s \<or> 5 < \<bar>float32_sub ?n (sma ?s)\<bar>) \<and>
      (5 + 1 / 2 ^ 22 < \<bar>?n - sma ?s\<bar> \<longrightarrow> dataChanged ?s') \<and>
      (\<bar>?n - sma ?s\<bar> \<le> 5 \<longrightarrow> dataChanged ?s' = dataChanged ?s)"
    using h n flag above below by (intro conjI)
  show ?thesis
    unfolding Let_def by (rule conjI [OF producer conjI [OF lcd]])
qed

theorem dataChanged_set_on_threshold_cleared_on_render_witness:
  "list_all (\<lambda>x. \<bar>x\<bar> \<le> 400000000) (samples_u1 [ProducerRound 28, DisplayRound]) \<and>
   list_all (\<lambda>x. \<bar>x\<bar> \<le> 400000000) (samples_u1 [ProducerRound 26, DisplayRound]) \<and>
   \<bar>25 :: int\<bar> \<le> 400000000 \<and>
   5 + 1 / 2 ^ 22
     < \<bar>float_of_sum_div_5 (sum_list [28, 25, 0, 0, 0])
        - sma (run_u1 [ProducerRound 28, DisplayRound])\<bar> \<and>
   \<not> dataChanged (run_u1 [ProducerRound 28, DisplayRound]) \<and>
   dataChanged (snd (vTaskLight_u1_round 25 (run_u1 [ProducerRound 28, DisplayRound]))) \<and>
   \<bar>float_of_sum_div_5 (sum_list [26, 25, 0, 0, 0])
      - sma (run_u1 [ProducerRound 26, DisplayRound])\<bar> \<le> 5 \<and>
   \<not> dataChanged (run_u1 [ProducerRound 26, DisplayRound]) \<and>
   \<not> dataChanged (snd (vTaskLight_u1_round 25 (run_u1 [ProducerRound 26, DisplayRound])))"
proof -
  have f53: "float_of_sum_div_5 53 = 5557453 / 524288" by (simp add: float_eval)
  have f51: "float_of_sum_div_5 51 = 10695475 / 1048576" by (simp add: float_eval)
  have d53: "float32_sub (5557453 / 524288) (11744051 / 2097152) = 10485761 / 2097152"
    by (simp add: float_eval)
  have d51: "float32_sub (10695475 / 1048576) (5452595 / 1048576) = 5"
    by (simp add: float_eval)
  have h: "\<forall>x\<in>set (samples_u1 [ProducerRound 28, DisplayRound]). \<bar>x\<bar> \<le> 400000000"
      "\<forall>x\<in>set (samples_u1 [ProducerRound 26, DisplayRound]). \<bar>x\<bar> \<le> 400000000"
      "\<bar>25 :: int\<bar> \<le> 400000000"
    by simp_all
  from dataChanged_set_on_threshold_cleared_on_render [OF h(1) h(3)]
       dataChanged_set_on_threshold_cleared_on_render [OF h(2) h(3)]
  show ?thesis
    by (simp add: Let_def run_u1_28_display run_u1_26_display f53 f51 d53 d51)
qed

section \<open>Part II: the alarm task\<close>

lemma blink_loop_u1_unrolled:
  "blink_loop_u1 0 =
     [DigitalWrite LED_PIN_u1 HIGH, TaskDelay 250, DigitalWrite LED_PIN_u1 LOW, TaskDelay 250,
      DigitalWrite LED_PIN_u1 HIGH, TaskDelay 250, DigitalWrite LED_PIN_u1 LOW, TaskDelay 250,
      DigitalWrite LED_PIN_u1 HIGH, TaskDelay 250, DigitalWrite LED_PIN_u1 LOW, TaskDelay 250]"
  by (simp add: blink_loop_u1.simps)

lemma blink_loop_u2_unrolled:
  "blink_loop_u2 0 =
     [DigitalWrite LED_PIN_u2 HIGH, TaskDelay 250, DigitalWrite LED_PIN_u2 LOW, TaskDelay 2000,
      DigitalWrite LED_PIN_u2 HIGH, TaskDelay 250, DigitalWrite LED_PIN_u2 LOW, TaskDelay 2000,
      DigitalWrite LED_PIN_u2 HIGH, TaskDelay 250, DigitalWrite LED_PIN_u2 LOW, TaskDelay 2000]"
  by (simp add: blink_loop_u2.simps)

text \<open>
  Claim C4 fails in Update 1. Its alarm round gives the semaphore back only after the
  whole blink sequence: from the initial state (\<open>sma = 0\<close>, below 300) the round is the
  trace below, with every pin write and every delay between the take and the give.
\<close>

theorem vTaskAnomaly_u1_blinks_under_lock:
  "vTaskAnomaly_u1_round init_u1 =
     [SemTake,
      DigitalWrite 1 HIGH, TaskDelay 250, DigitalWrite 1 LOW, TaskDelay 250,
      DigitalWrite 1 HIGH, TaskDelay 250, DigitalWrite 1 LOW, TaskDelay 250,
      DigitalWrite 1 HIGH, TaskDelay 250, DigitalWrite 1 LOW, TaskDelay 250,
      TaskDelay 2000,
      SemGive] \<and>
   \<not> signals_outside_lock False (vTaskAnomaly_u1_round init_u1)"
  by (simp add: vTaskAnomaly_u1_round_def init_u1_def blink_loop_u1_unrolled LED_PIN_u1_def)

text \<open>The same holds whenever Update 1 sees an anomaly, and never in Update 2.\<close>

lemma vTaskAnomaly_u1_anomaly_under_lock:
  "sma s > 3800 \<or> sma s < 300 \<Longrightarrow> \<not> signals_outside_lock False (vTaskAnomaly_u1_round s)"
  by (simp add: vTaskAnomaly_u1_round_def blink_loop_u1_unrolled)

lemma vTaskAnomaly_u2_signals_outside_lock:
  "signals_outside_lock False (fst (vTaskAnomaly_u2_round t))"
  by (simp add: vTaskAnomaly_u2_round_def Let_def blink_loop_u2_unrolled)

text \<open>
  Claim C5. In both revisions a round of the alarm task writes the pin exactly when the
  average it reads is above 3800 or below 300, and then it writes HIGH, LOW three times.
  Update 2 keeps the verdict in the local \<open>anomaly\<close>: it is false when the task starts,
  false again after every round of the task, and no round of the producer touches it.
\<close>

theorem alarm_blinks_three_times_iff_out_of_range:
  "pin_writes (vTaskAnomaly_u1_round s)
     = (if sma s > 3800 \<or> sma s < 300 then [HIGH, LOW, HIGH, LOW, HIGH, LOW] else []) \<and>
   (\<not> vTaskAnomaly_anomaly t \<longrightarrow>
      pin_writes (fst (vTaskAnomaly_u2_round t))
        = (if average t > 3800 \<or> average t < 300 then [HIGH, LOW, HIGH, LOW, HIGH, LOW] else [])) \<and>
   \<not> vTaskAnomaly_anomaly (snd (vTaskAnomaly_u2_round t)) \<and>
   \<not> vTaskAnomaly_anomaly (init_u2 h0) \<and>
   vTaskAnomaly_anomaly (vTaskLight_u2_round raw t) = vTaskAnomaly_anomaly t"
  by (simp add: vTaskAnomaly_u1_round_def vTaskAnomaly_u2_round_def Let_def init_u2_def
      blink_loop_u1_unrolled blink_loop_u2_unrolled vTaskLight_u2_round_def)

theorem alarm_blinks_three_times_iff_out_of_range_witness:
  "\<not> vTaskAnomaly_anomaly ((init_u2 [0, 0, 0, 0, 0])\<lparr> average := 4000 \<rparr>) \<and>
   pin_writes (vTaskAnomaly_u1_round (init_u1\<lparr> sma := 4000 \<rparr>))
     = [HIGH, LOW, HIGH, LOW, HIGH, LOW] \<and>
   pin_writes (fst (vTaskAnomaly_u2_round ((init_u2 [0, 0, 0, 0, 0])\<lparr> average := 4000 \<rparr>)))
     = [HIGH, LOW, HIGH, LOW, HIGH, LOW]"
  using alarm_blinks_three_times_iff_out_of_range
      [of "init_u1\<lparr> sma := 4000 \<rparr>" "(init_u2 [0, 0, 0, 0, 0])\<lparr> average := 4000 \<rparr>"]
  by (simp add: init_u2_def)

section \<open>Part II: startup\<close>

text \<open>
  Claim C7 fails in Update 1. Its \<open>setup\<close> never gives the semaphore: when the creation
  succeeds and FreeRTOS makes the semaphore empty, the four tasks are created around a
  semaphore that cannot be taken.
\<close>

theorem setup_u1_leaves_semaphore_empty:
  "xLightSemaphore (setup_u1 True False) = Some False \<and>
   map task_code (tasks (setup_u1 True False))
     = [VTaskLight, VTaskLCD, VTaskAnomaly, VTaskPrime]"
  by (auto simp: setup_u1_def xSemaphoreCreateBinary_def xTaskCreatePinnedToCore_def Let_def)

text \<open>
  In both revisions no task is created when the creation fails, and Update 2 starts its
  tasks with the semaphore available.
\<close>

lemma setup_u1_no_lock_no_tasks: "tasks (setup_u1 False fresh) = []"
  by (simp add: setup_u1_def xSemaphoreCreateBinary_def)

lemma setup_u2_no_lock_no_tasks: "setup_u2 False fresh = Inl NullSemaphore"
  by (simp add: setup_u2_def xSemaphoreCreateBinary_def xSemaphoreGive_def)

lemma setup_u2_lock_available:
  "\<exists>sys. setup_u2 True fresh = Inr sys \<and> xLightSemaphore sys = Some True \<and>
     map task_code (tasks sys) = [VTaskLight, VTaskLCD, VTaskAnomaly, VTaskPrime]"
  by (auto simp: setup_u2_def xSemaphoreCreateBinary_def xSemaphoreGive_def
      xTaskCreatePinnedToCore_def Let_def)

section \<open>Part II: the prime task\<close>

lemma square_mono_int:
  fixes i d :: int
  assumes "0 \<le> i" and "i \<le> d"
  shows "i * i \<le> d * d"
  using assms by (intro mult_mono) simp_all

lemma isPrime_loop_iff:
  "2 \<le> i \<Longrightarrow> i \<le> 1001 \<Longrightarrow> num \<le> 1000000 \<Longrightarrow>
   isPrime_loop num i = Inr (\<forall>d. i \<le> d \<and> d * d \<le> num \<longrightarrow> num mod d \<noteq> 0)"
proof (induction num i rule: isPrime_loop.induct)
  case (1 num i)
  from "1.prems" have "2 * 2 \<le> i * i" and "i * i \<le> 1001 * 1001"
    by (intro square_mono_int; simp)+
  then have "- 2147483648 \<le> i * i" and "i * i < 2147483648" by simp_all
  then have w1: "int32_wrap (i * i) = i * i" by (rule int32_wrap_id)
  from "1.prems" have w2: "int32_wrap (i + 1) = i + 1" by (intro int32_wrap_id) simp_all
  from "1.prems" have nz: "i \<noteq> 0" by simp
  show ?case
  proof (cases "i * i \<le> num")
    case False
    have none: "\<not> d * d \<le> num" if "i \<le> d" for d
      using square_mono_int [of i d] that "1.prems" False by linarith
    have "isPrime_loop num i = Inr True"
      using isPrime_loop.simps [of num i] False by (simp add: w1)
    moreover have "\<forall>d. i \<le> d \<and> d * d \<le> num \<longrightarrow> num mod d \<noteq> 0"
    proof (intro allI impI)
      fix d assume "i \<le> d \<and> d * d \<le> num"
      with none [of d] show "num mod d \<noteq> 0" by simp
    qed
    ultimately show ?thesis by simp
  next
    case True
    have i1000: "i + 1 \<le> 1001"
    proof (rule ccontr)
      assume "\<not> i + 1 \<le> 1001"
      then have "1001 \<le> i" by simp
      then have "1001 * 1001 \<le> i * i" by (intro square_mono_int) simp_all
      with True "1.prems" show False by simp
    qed
    show ?thesis
    proof (cases "num mod i = 0")
      case z: True
      have "isPrime_loop num i = Inr False"
        using isPrime_loop.simps [of num i] True z nz by (simp add: w1)
      moreover have "\<not> (\<forall>d. i \<le> d \<and> d * d \<le> num \<longrightarrow> num mod d \<noteq> 0)"
      proof
        assume "\<forall>d. i \<le> d \<and> d * d \<le> num \<longrightarrow> num mod d \<noteq> 0"
        then have "i \<le> i \<and> i * i \<le> num \<longrightarrow> num mod i \<noteq> 0" by (rule spec)
        with True z show False by simp
      qed
      ultimately show ?thesis by simp
    next
      case nd: False
      from True have wt: "int32_wrap (i * i) \<le> num" by (simp only: w1)
      from "1.prems" have "2 \<le> int32_wrap (i + 1)" by (simp add: w2)
      moreover from i1000 have "int32_wrap (i + 1) \<le> 1001" by (simp add: w2)
      ultimately have "isPrime_loop num (int32_wrap (i + 1))
          = Inr (\<forall>d. int32_wrap (i + 1) \<le> d \<and> d * d \<le> num \<longrightarrow> num mod d \<noteq> 0)"
        using "1.prems"(3) by (rule "1.IH" [OF wt nz nd])
      then have IH: "isPrime_loop num (i + 1)
                  = Inr (\<forall>d. i + 1 \<le> d \<and> d * d \<le> num \<longrightarrow> num mod d \<noteq> 0)"
        by (simp only: w2)
      have step: "isPrime_loop num i = isPrime_loop num (i + 1)"
        using isPrime_loop.simps [of num i] True nd nz by (simp add: w1 w2)
      have "(\<forall>d. i \<le> d \<and> d * d \<le> num \<longrightarrow> num mod d \<noteq> 0)
              = (\<forall>d. i + 1 \<le> d \<and> d * d \<le> num \<longrightarrow> num mod d \<noteq> 0)"
      proof
        assume a: "\<forall>d. i \<le> d \<and> d * d \<le> num \<longrightarrow> num mod d \<noteq> 0"
        show "\<forall>d. i + 1 \<le> d \<and> d * d \<le> num \<longrightarrow> num mod d \<noteq> 0"
        proof (intro allI impI)
          fix d assume "i + 1 \<le> d \<and> d * d \<le> num"
          then have "i \<le> d \<and> d * d \<le> num" by linarith
          moreover from a have "i \<le> d \<and> d * d \<le> num \<longrightarrow> num mod d \<noteq> 0" by (rule spec)
          ultimately show "num mod d \<noteq> 0" by (rule rev_mp)
        qed
      next
        assume a: "\<forall>d. i + 1 \<le> d \<and> d * d \<le> num \<longrightarrow> num mod d \<noteq> 0"
        show "\<forall>d. i \<le> d \<and> d * d \<le> num \<longrightarrow> num mod d \<noteq> 0"
        proof (intro allI impI)
          fix d assume d: "i \<le> d \<and> d * d \<le> num"
          show "num mod d \<noteq> 0"
          proof (cases "d = i")
            case True with nd show ?thesis by simp
          next
            case False
            with d have "i + 1 \<le> d \<and> d * d \<le> num" by linarith
            moreover from a have "i + 1 \<le> d \<and> d * d \<le> num \<longrightarrow> num mod d \<noteq> 0"
              by (rule spec)
            ultimately show ?thesis by (rule rev_mp)
          qed
        qed
      qed
      with IH step show ?thesis by simp
    qed
  qed
qed

lemma trial_division_complete:
  fixes n :: int
  assumes n: "2 \<le> n"
  shows "(\<forall>d. 2 \<le> d \<and> d * d \<le> n \<longrightarrow> n mod d \<noteq> 0)
           = (\<forall>d. 0 < d \<and> d dvd n \<longrightarrow> d = 1 \<or> d = n)"
proof
  assume trial: "\<forall>d. 2 \<le> d \<and> d * d \<le> n \<longrightarrow> n mod d \<noteq> 0"
  show "\<forall>d. 0 < d \<and> d dvd n \<longrightarrow> d = 1 \<or> d = n"
  proof (intro allI impI)
    fix d assume d: "0 < d \<and> d dvd n"
    then obtain e where e: "n = d * e" by (auto simp: dvd_def)
    from n e have "0 < d * e" by linarith
    with d have epos: "0 < e" by (auto intro: zero_less_mult_pos)
    have dn: "n mod d = 0" and en: "n mod e = 0" by (simp_all add: e)
    show "d = 1 \<or> d = n"
    proof (rule ccontr)
      assume neg: "\<not> (d = 1 \<or> d = n)"
      with d have d2: "2 \<le> d" by linarith
      have "e \<noteq> 1" using neg e by auto
      with epos have e2: "2 \<le> e" by linarith
      show False
      proof (cases "d \<le> e")
        case True
        with d2 have "d * d \<le> d * e" by (intro mult_left_mono) linarith+
        then have "d * d \<le> n" by (simp only: e)
        moreover from trial have "2 \<le> d \<and> d * d \<le> n \<longrightarrow> n mod d \<noteq> 0" by (rule spec)
        ultimately show False using d2 dn by simp
      next
        case False
        with e2 have "e * e \<le> d * e" by (intro mult_right_mono) linarith+
        then have "e * e \<le> n" by (simp only: e)
        moreover from trial have "2 \<le> e \<and> e * e \<le> n \<longrightarrow> n mod e \<noteq> 0" by (rule spec)
        ultimately show False using e2 en by simp
      qed
    qed
  qed
next
  assume prime: "\<forall>d. 0 < d \<and> d dvd n \<longrightarrow> d = 1 \<or> d = n"
  show "\<forall>d. 2 \<le> d \<and> d * d \<le> n \<longrightarrow> n mod d \<noteq> 0"
  proof (intro allI impI notI)
    fix d assume d: "2 \<le> d \<and> d * d \<le> n" and m: "n mod d = 0"
    from m have "d dvd n" by (simp only: dvd_eq_mod_eq_0)
    moreover from d have "0 < d" by linarith
    moreover from prime have "0 < d \<and> d dvd n \<longrightarrow> d = 1 \<or> d = n" by (rule spec)
    ultimately have "d = 1 \<or> d = n" by simp
    with d have dn: "d = n" by linarith
    from d have "d * d \<le> n" by simp
    then have "n * n \<le> n" by (simp only: dn)
    moreover from n have "n * 2 \<le> n * n" by (intro mult_left_mono) linarith+
    ultimately show False using n by linarith
  qed
qed

lemma isPrime_iff:
  assumes "2 \<le> n" and "n \<le> 1000000"
  shows "isPrime n = Inr (\<forall>d. 0 < d \<and> d dvd n \<longrightarrow> d = 1 \<or> d = n)"
proof -
  have "isPrime n = Inr (\<forall>d. 2 \<le> d \<and> d * d \<le> n \<longrightarrow> n mod d \<noteq> 0)"
    unfolding isPrime_def using assms(2) by (intro isPrime_loop_iff) simp_all
  also have "(\<forall>d. 2 \<le> d \<and> d * d \<le> n \<longrightarrow> n mod d \<noteq> 0)
               = (\<forall>d. 0 < d \<and> d dvd n \<longrightarrow> d = 1 \<or> d = n)"
    using assms(1) by (rule trial_division_complete)
  finally show ?thesis .
qed

lemma int32_wrap_le: "int32_wrap x \<le> 2147483647"
proof -
  have "(x + 2147483648) mod 4294967296 < 4294967296" by simp
  then show ?thesis unfolding int32_wrap_def by linarith
qed

text \<open>
  Beyond the range of the task the wrap-around shows: for the prime \<open>2\<^sup>3\<^sup>1 - 1\<close> the test
  \<open>i * i \<le> num\<close> holds of every \<open>int\<close>, so the loop runs until a divisor is found, at the
  latest \<open>num\<close> itself, and the answer is \<open>false\<close>.
\<close>

lemma isPrime_loop_INT_MAX:
  "2 \<le> i \<Longrightarrow> i \<le> 2147483647 \<Longrightarrow> isPrime_loop 2147483647 i = Inr False"
proof (induction "nat (2147483647 - i)" arbitrary: i)
  case 0
  then have i: "i = 2147483647" by simp
  show ?case
    using isPrime_loop.simps [of 2147483647 2147483647] int32_wrap_le [of "2147483647 * 2147483647"]
    unfolding i by simp
next
  case (Suc k)
  then have lt: "i < 2147483647" by linarith
  have w: "int32_wrap (i + 1) = i + 1"
    using Suc.prems lt by (simp add: int32_wrap_def)
  have rest: "isPrime_loop 2147483647 (i + 1) = Inr False"
    using Suc.hyps(2) Suc.prems lt by (intro Suc.hyps(1)) simp_all
  show ?case
    using isPrime_loop.simps [of 2147483647 i] int32_wrap_le [of "i * i"] Suc.prems
    by (simp add: w rest)
qed

lemma isPrime_INT_MAX: "isPrime 2147483647 = Inr False"
  unfolding isPrime_def by (rule isPrime_loop_INT_MAX) simp_all

lemma printed_append: "printed (xs @ ys) = printed xs @ printed ys"
  by (induction xs rule: printed.induct) simp_all

text \<open>
  From any start \<open>i \<ge> 2\<close> the loop of Update 2 runs to its end without a fault: its events
  are a body without \<open>TaskDelete\<close>, then \<open>TaskDelete\<close>, and the body prints the primes from
  \<open>i\<close> to 5000 in order.
\<close>

lemma vTaskPrime_loop_u2_run:
  "2 \<le> i \<Longrightarrow>
   \<exists>body. vTaskPrime_loop_u2 i = (body @ [TaskDelete], None) \<and> TaskDelete \<notin> set body \<and>
     printed body = filter (\<lambda>n. \<forall>d. 0 < d \<and> d dvd n \<longrightarrow> d = 1 \<or> d = n) [i..5000]"
proof (induction i rule: vTaskPrime_loop_u2.induct)
  case (1 i)
  let ?P = "\<lambda>n::int. \<forall>d. 0 < d \<and> d dvd n \<longrightarrow> d = 1 \<or> d = n"
  show ?case
  proof (cases "i \<le> 5000")
    case False
    then have "vTaskPrime_loop_u2 i = ([] @ [TaskDelete], None)"
      using vTaskPrime_loop_u2.simps [of i] by simp
    moreover from False have "[i..5000] = []" by simp
    ultimately show ?thesis by (intro exI [of _ "[]"]) simp
  next
    case True
    with "1.prems" have p: "isPrime i = Inr (?P i)" by (intro isPrime_iff) simp_all
    from "1.prems" have "2 \<le> i + 1" by simp
    with "1.IH" [OF True p] obtain body where
      rest: "vTaskPrime_loop_u2 (i + 1) = (body @ [TaskDelete], None)"
      and nd: "TaskDelete \<notin> set body"
      and pr: "printed body = filter ?P [i + 1..5000]"
      by blast
    let ?here = "(if ?P i then [SerialPrint ''Prime: '', SerialPrintln i] else []) @ [TaskDelay 10]"
    have "vTaskPrime_loop_u2 i = ((?here @ body) @ [TaskDelete], None)"
      using vTaskPrime_loop_u2.simps [of i] True by (simp add: p rest)
    moreover have "TaskDelete \<notin> set (?here @ body)" using nd by simp
    moreover from True have up: "[i..5000] = i # [i + 1..5000]" by (simp add: upto_rec1)
    have "printed (?here @ body) = filter ?P [i..5000]"
      by (simp add: printed_append pr up)
    ultimately show ?thesis by (intro exI [of _ "?here @ body"]) simp
  qed
qed

lemma set_filter_upto: "set (filter P [i..j]) = {n. i \<le> n \<and> n \<le> j \<and> P n}"
  by auto

lemma sorted_filter_upto: "sorted (filter P [i..j])"
  by (rule sorted_wrt_filter) (rule sorted_upto)

lemma distinct_filter_upto: "distinct (filter P [i..j])"
  by (rule distinct_filter) (rule distinct_upto)

text \<open>
  Update 2 prints exactly the primes from 2 to 5000, in ascending order and once each, and
  its last event, the only one of its kind, is the deletion of the task.
\<close>

lemma vTaskPrime_u2_prints_the_primes:
  "snd vTaskPrime_u2 = None \<and>
   set (printed (fst vTaskPrime_u2))
     = {n. 2 \<le> n \<and> n \<le> 5000 \<and> (\<forall>d. 0 < d \<and> d dvd n \<longrightarrow> d = 1 \<or> d = n)} \<and>
   sorted (printed (fst vTaskPrime_u2)) \<and> distinct (printed (fst vTaskPrime_u2)) \<and>
   last (fst vTaskPrime_u2) = TaskDelete \<and> TaskDelete \<notin> set (butlast (fst vTaskPrime_u2))"
proof -
  let ?P = "\<lambda>n::int. \<forall>d. 0 < d \<and> d dvd n \<longrightarrow> d = 1 \<or> d = n"
  obtain body where run: "vTaskPrime_u2 = (body @ [TaskDelete], None)"
    and nd: "TaskDelete \<notin> set body"
    and pr: "printed body = filter ?P [2..5000]"
    using vTaskPrime_loop_u2_run [of 2] unfolding vTaskPrime_u2_def by auto
  have p: "printed (fst vTaskPrime_u2) = filter ?P [2..5000]"
    by (simp only: run fst_conv printed_append pr printed.simps append_Nil2)
  show ?thesis
  proof (intro conjI)
    show "snd vTaskPrime_u2 = None" by (simp add: run)
    show "set (printed (fst vTaskPrime_u2))
            = {n. 2 \<le> n \<and> n \<le> 5000 \<and> (\<forall>d. 0 < d \<and> d dvd n \<longrightarrow> d = 1 \<or> d = n)}"
      by (simp only: p set_filter_upto)
    show "sorted (printed (fst vTaskPrime_u2))" by (simp only: p sorted_filter_upto)
    show "distinct (printed (fst vTaskPrime_u2))" by (simp only: p distinct_filter_upto)
    show "last (fst vTaskPrime_u2) = TaskDelete" by (simp add: run)
    show "TaskDelete \<notin> set (butlast (fst vTaskPrime_u2))" by (simp add: run nd)
  qed
qed

lemma vTaskPrime_inner_u1_first:
  "vTaskPrime_inner_u1 num i 0 = (if 0 \<le> num then ([], Some DivideByZero) else ([], None))"
  by (subst vTaskPrime_inner_u1.simps) simp

lemma vTaskPrime_loop_u1_negative:
  "num < 0 \<Longrightarrow> vTaskPrime_loop_u1 num i = ([TaskDelete], None)"
proof (induction num i rule: vTaskPrime_loop_u1.induct)
  case (1 num i)
  show ?case
  proof (cases "i \<le> 5000")
    case True
    have inner: "vTaskPrime_inner_u1 num i 0 = ([], None)"
      using "1.prems" by (simp add: vTaskPrime_inner_u1_first)
    from "1.IH" [OF True inner [symmetric] refl] "1.prems"
    have "vTaskPrime_loop_u1 num (i + 1) = ([TaskDelete], None)" by simp
    with True inner show ?thesis by (subst vTaskPrime_loop_u1.simps) simp
  next
    case False
    then show ?thesis by (subst vTaskPrime_loop_u1.simps) simp
  qed
qed

text \<open>
  Claim C9 fails in Update 1. Whatever \<open>num\<close> stands for, the task prints nothing: for
  \<open>num \<ge> 0\<close> the first test of the inner loop divides by zero, and for \<open>num < 0\<close> the
  inner loop never runs.
\<close>

theorem vTaskPrime_u1_prints_no_prime:
  "vTaskPrime_u1 num = (if 0 \<le> num then ([], Some DivideByZero) else ([TaskDelete], None)) \<and>
   printed (fst (vTaskPrime_u1 num)) = []"
proof (cases "0 \<le> num")
  case True
  then have "vTaskPrime_loop_u1 num 2 = ([], Some DivideByZero)"
    by (subst vTaskPrime_loop_u1.simps) (simp add: vTaskPrime_inner_u1_first)
  with True show ?thesis by (simp add: vTaskPrime_u1_def)
next
  case False
  then have "vTaskPrime_loop_u1 num 2 = ([TaskDelete], None)"
    by (intro vTaskPrime_loop_u1_negative) simp
  with False show ?thesis by (simp add: vTaskPrime_u1_def)
qed

end
